theory Spec2Isabelle
  imports Main "HOL-Library.Word"
begin

section \<open>Memory, objects and failures\<close>

text \<open>
  The source is \<^verbatim>\<open>advanced-vector/vector.h\<close>: the class templates \<^verbatim>\<open>RawMemory<T>\<close>
  and \<^verbatim>\<open>Vector<T>\<close>. Raw storage and object lifetime are separate there, so the
  model keeps them separate too:
  \<^item> \<open>blocks\<close> records which raw blocks \<^verbatim>\<open>operator new\<close> has handed out and how many
    slots each holds; address \<open>0\<close> is \<^verbatim>\<open>nullptr\<close>;
  \<^item> a pointer \<^verbatim>\<open>T*\<close> is a block address with a slot offset;
  \<^item> \<open>mem\<close> says which slots hold a constructed object (\<open>Some v\<close>) and which are raw
    (\<open>None\<close>); releasing a block does not run destructors, so an object that was
    never destroyed stays visible in \<open>mem\<close>;
  \<^item> \<open>vecs\<close> holds the \<^verbatim>\<open>Vector\<close> objects themselves, so that \<^verbatim>\<open>this == &rhs\<close> is
    equality of references;
  \<^item> \<open>ticks\<close> counts the fallible events so far (allocations, element constructors
    and element assignments).
  Sizes of type \<^verbatim>\<open>size_t\<close> are natural numbers: a size is bounded by a block that was
  really allocated. The one exception is the byte count \<^verbatim>\<open>n * sizeof(T)\<close> in \<^verbatim>\<open>Allocate\<close>,
  whose factor \<open>n\<close> the callers of \<^verbatim>\<open>Reserve\<close>, \<^verbatim>\<open>Resize\<close> and \<^verbatim>\<open>Vector(size_t)\<close> choose
  freely: it is computed in \<^verbatim>\<open>size_t\<close>, of 64 bits, and wraps.
  The index \<^verbatim>\<open>int pos_index\<close> of \<^verbatim>\<open>Emplace\<close> and \<^verbatim>\<open>Erase\<close> is a
  32-bit signed integer, as on the LP64 and LLP64 platforms. The members \<^verbatim>\<open>buffer_\<close>,
  \<^verbatim>\<open>capacity_\<close>, \<^verbatim>\<open>data_\<close> and \<^verbatim>\<open>size_\<close> are the fields \<open>raw_buffer\<close>, \<open>raw_capacity\<close>,
  \<open>vec_data\<close> and \<open>vec_size\<close>.
\<close>

type_synonym addr = nat
type_synonym ptr = "addr \<times> nat"
type_synonym vref = nat

abbreviation nullptr :: addr where
  "nullptr \<equiv> 0"

record RawMemory =
  raw_buffer :: addr
  raw_capacity :: nat

record Vector =
  vec_data :: RawMemory
  vec_size :: nat

record 'a state =
  blocks :: "addr \<Rightarrow> nat option"
  mem :: "ptr \<Rightarrow> 'a option"
  next_addr :: addr
  vecs :: "vref \<Rightarrow> Vector"
  ticks :: nat

datatype exn = BadAlloc | ElemThrow

text \<open>
  What the template knows about the element type \<^verbatim>\<open>T\<close>: the two traits that
  \<^verbatim>\<open>if constexpr\<close> asks for, the state a moved-from object is left in, the value of
  \<^verbatim>\<open>T()\<close>, \<open>fails\<close>, which says for each fallible event of a run whether it
  fails (\<open>fails T n\<close>: the event number \<open>n\<close>, counted from 0, throws), and \<open>size_of\<close>, the
  number of bytes \<^verbatim>\<open>sizeof(T)\<close>.
\<close>

record 'a elem_type =
  nothrow_move_constructible :: bool
  copy_constructible :: bool
  moved_from :: "'a \<Rightarrow> 'a"
  value_init :: 'a
  fails :: "nat \<Rightarrow> bool"
  size_of :: nat

text \<open>
  An operation returns normally with a value and a state, throws with the state it
  leaves behind, or has undefined behaviour (a violated precondition of the language
  or of the standard library).
\<close>

datatype ('r, 'a) result = Ok 'r "'a state" | Throw exn "'a state" | UB

fun and_then :: "('x, 'a) result \<Rightarrow> ('x \<Rightarrow> 'a state \<Rightarrow> ('y, 'a) result) \<Rightarrow> ('y, 'a) result" where
  "and_then (Ok x s) f = f x s"
| "and_then (Throw e s) f = Throw e s"
| "and_then UB f = UB"

text \<open>\<^verbatim>\<open>catch (...) { cleanup; throw; }\<close> and destructors of locals during unwinding.\<close>

fun rethrow :: "exn \<Rightarrow> (unit, 'a) result \<Rightarrow> ('y, 'a) result" where
  "rethrow e (Ok _ s) = Throw e s"
| "rethrow e (Throw _ _) = UB"
| "rethrow e UB = UB"

definition fallible :: "'a elem_type \<Rightarrow> exn \<Rightarrow> 'a state \<Rightarrow> (unit, 'a) result" where
  "fallible T e s =
     (if fails T (ticks s) then Throw e (s\<lparr>ticks := Suc (ticks s)\<rparr>)
      else Ok () (s\<lparr>ticks := Suc (ticks s)\<rparr>))"

definition ptr_add :: "ptr \<Rightarrow> nat \<Rightarrow> ptr" where
  "ptr_add p k = (fst p, snd p + k)"

definition ptr_sub :: "ptr \<Rightarrow> nat \<Rightarrow> ptr" where
  "ptr_sub p k = (fst p, snd p - k)"

definition in_block :: "'a state \<Rightarrow> ptr \<Rightarrow> bool" where
  "in_block s p = (case blocks s (fst p) of None \<Rightarrow> False | Some n \<Rightarrow> snd p < n)"

definition obj :: "'a state \<Rightarrow> ptr \<Rightarrow> 'a option" where
  "obj s p = (if in_block s p then mem s p else None)"

definition put :: "ptr \<Rightarrow> 'a option \<Rightarrow> 'a state \<Rightarrow> 'a state" where
  "put p x s = s\<lparr>mem := (mem s)(p := x)\<rparr>"

subsection \<open>Operations of the element type\<close>

text \<open>
  The arguments forwarded to a constructor of \<^verbatim>\<open>T\<close>: either they determine the new
  value by themselves (\<open>ByValue\<close>: a temporary, or an object outside every buffer), or
  they are a \<^verbatim>\<open>const T&\<close> to a slot of some buffer (\<open>ByRef\<close>), read when the
  constructor runs.
\<close>

datatype 'a arg = ByValue 'a | ByRef ptr

fun arg_value :: "'a state \<Rightarrow> 'a arg \<Rightarrow> 'a option" where
  "arg_value s (ByValue v) = Some v"
| "arg_value s (ByRef q) = obj s q"

text \<open>\<^verbatim>\<open>new (p) T(std::forward<Types>(values)...)\<close>\<close>

definition construct :: "'a elem_type \<Rightarrow> ptr \<Rightarrow> 'a arg \<Rightarrow> 'a state \<Rightarrow> (unit, 'a) result" where
  "construct T p a s =
     and_then (fallible T ElemThrow s) (\<lambda>_ s1.
       case arg_value s1 a of
         None \<Rightarrow> UB
       | Some v \<Rightarrow> if in_block s1 p then Ok () (put p (Some v) s1) else UB)"

definition copy_construct :: "'a elem_type \<Rightarrow> ptr \<Rightarrow> ptr \<Rightarrow> 'a state \<Rightarrow> (unit, 'a) result" where
  "copy_construct T p q s = construct T p (ByRef q) s"

text \<open>\<^verbatim>\<open>new (p) T(std::move(*q))\<close>: cannot throw when the trait says so.\<close>

definition move_construct :: "'a elem_type \<Rightarrow> ptr \<Rightarrow> ptr \<Rightarrow> 'a state \<Rightarrow> (unit, 'a) result" where
  "move_construct T p q s =
     and_then (if nothrow_move_constructible T then Ok () s else fallible T ElemThrow s) (\<lambda>_ s1.
       case obj s1 q of
         None \<Rightarrow> UB
       | Some v \<Rightarrow>
           if in_block s1 p then Ok () (put p (Some v) (put q (Some (moved_from T v)) s1))
           else UB)"

definition value_construct :: "'a elem_type \<Rightarrow> ptr \<Rightarrow> 'a state \<Rightarrow> (unit, 'a) result" where
  "value_construct T p s =
     and_then (fallible T ElemThrow s) (\<lambda>_ s1.
       if in_block s1 p then Ok () (put p (Some (value_init T)) s1) else UB)"

text \<open>\<^verbatim>\<open>*p = *q\<close> and \<^verbatim>\<open>*p = std::move(*q)\<close> between live objects.\<close>

definition copy_assign :: "'a elem_type \<Rightarrow> ptr \<Rightarrow> ptr \<Rightarrow> 'a state \<Rightarrow> (unit, 'a) result" where
  "copy_assign T p q s =
     and_then (fallible T ElemThrow s) (\<lambda>_ s1.
       case obj s1 q of
         None \<Rightarrow> UB
       | Some v \<Rightarrow> (case obj s1 p of None \<Rightarrow> UB | Some _ \<Rightarrow> Ok () (put p (Some v) s1)))"

definition move_assign :: "'a elem_type \<Rightarrow> ptr \<Rightarrow> ptr \<Rightarrow> 'a state \<Rightarrow> (unit, 'a) result" where
  "move_assign T p q s =
     and_then (fallible T ElemThrow s) (\<lambda>_ s1.
       case obj s1 q of
         None \<Rightarrow> UB
       | Some v \<Rightarrow>
           (case obj s1 p of
              None \<Rightarrow> UB
            | Some _ \<Rightarrow> Ok () (put p (Some v) (put q (Some (moved_from T v)) s1))))"

text \<open>
  \<^verbatim>\<open>*p = T(std::forward<Types>(values)...)\<close>: the temporary is constructed first, then
  move-assigned into the live object at \<open>p\<close>.
\<close>

definition assign_temporary :: "'a elem_type \<Rightarrow> ptr \<Rightarrow> 'a arg \<Rightarrow> 'a state \<Rightarrow> (unit, 'a) result" where
  "assign_temporary T p a s =
     and_then (fallible T ElemThrow s) (\<lambda>_ s1.
       case arg_value s1 a of
         None \<Rightarrow> UB
       | Some v \<Rightarrow>
           and_then (fallible T ElemThrow s1) (\<lambda>_ s2.
             case obj s2 p of None \<Rightarrow> UB | Some _ \<Rightarrow> Ok () (put p (Some v) s2)))"

text \<open>\<^verbatim>\<open>p->~T()\<close>\<close>

definition destroy_at :: "ptr \<Rightarrow> 'a state \<Rightarrow> (unit, 'a) result" where
  "destroy_at p s = (case obj s p of None \<Rightarrow> UB | Some _ \<Rightarrow> Ok () (put p None s))"

subsection \<open>The algorithms of the standard library that the source calls\<close>

fun destroy_n :: "ptr \<Rightarrow> nat \<Rightarrow> 'a state \<Rightarrow> (unit, 'a) result" where
  "destroy_n p 0 s = Ok () s"
| "destroy_n p (Suc n) s =
     (case destroy_at p s of
        Ok _ s1 \<Rightarrow> destroy_n (ptr_add p 1) n s1
      | Throw e s1 \<Rightarrow> Throw e s1
      | UB \<Rightarrow> UB)"

text \<open>
  The \<^verbatim>\<open>uninitialized_*_n\<close> loops: \<open>i\<close> objects are constructed so far, \<open>n\<close> remain. When a
  constructor throws, the objects constructed so far are destroyed and the exception
  is thrown again.
\<close>

fun uninitialized_copy_loop ::
  "'a elem_type \<Rightarrow> ptr \<Rightarrow> ptr \<Rightarrow> nat \<Rightarrow> nat \<Rightarrow> 'a state \<Rightarrow> (unit, 'a) result" where
  "uninitialized_copy_loop T first d_first i 0 s = Ok () s"
| "uninitialized_copy_loop T first d_first i (Suc n) s =
     (case copy_construct T (ptr_add d_first i) (ptr_add first i) s of
        Ok _ s1 \<Rightarrow> uninitialized_copy_loop T first d_first (Suc i) n s1
      | Throw e s1 \<Rightarrow> rethrow e (destroy_n d_first i s1)
      | UB \<Rightarrow> UB)"

definition uninitialized_copy_n ::
  "'a elem_type \<Rightarrow> ptr \<Rightarrow> nat \<Rightarrow> ptr \<Rightarrow> 'a state \<Rightarrow> (unit, 'a) result" where
  "uninitialized_copy_n T first n d_first s = uninitialized_copy_loop T first d_first 0 n s"

fun uninitialized_move_loop ::
  "'a elem_type \<Rightarrow> ptr \<Rightarrow> ptr \<Rightarrow> nat \<Rightarrow> nat \<Rightarrow> 'a state \<Rightarrow> (unit, 'a) result" where
  "uninitialized_move_loop T first d_first i 0 s = Ok () s"
| "uninitialized_move_loop T first d_first i (Suc n) s =
     (case move_construct T (ptr_add d_first i) (ptr_add first i) s of
        Ok _ s1 \<Rightarrow> uninitialized_move_loop T first d_first (Suc i) n s1
      | Throw e s1 \<Rightarrow> rethrow e (destroy_n d_first i s1)
      | UB \<Rightarrow> UB)"

definition uninitialized_move_n ::
  "'a elem_type \<Rightarrow> ptr \<Rightarrow> nat \<Rightarrow> ptr \<Rightarrow> 'a state \<Rightarrow> (unit, 'a) result" where
  "uninitialized_move_n T first n d_first s = uninitialized_move_loop T first d_first 0 n s"

fun uninitialized_value_construct_loop ::
  "'a elem_type \<Rightarrow> ptr \<Rightarrow> nat \<Rightarrow> nat \<Rightarrow> 'a state \<Rightarrow> (unit, 'a) result" where
  "uninitialized_value_construct_loop T first i 0 s = Ok () s"
| "uninitialized_value_construct_loop T first i (Suc n) s =
     (case value_construct T (ptr_add first i) s of
        Ok _ s1 \<Rightarrow> uninitialized_value_construct_loop T first (Suc i) n s1
      | Throw e s1 \<Rightarrow> rethrow e (destroy_n first i s1)
      | UB \<Rightarrow> UB)"

definition uninitialized_value_construct_n ::
  "'a elem_type \<Rightarrow> ptr \<Rightarrow> nat \<Rightarrow> 'a state \<Rightarrow> (unit, 'a) result" where
  "uninitialized_value_construct_n T first n s = uninitialized_value_construct_loop T first 0 n s"

text \<open>
  \<^verbatim>\<open>std::copy(first, first + n, d_first)\<close> and \<^verbatim>\<open>std::move(first, first + n, d_first)\<close>
  assign front to back; \<^verbatim>\<open>std::move_backward(first, first + n, d_last)\<close> assigns back to
  front. An exception of an assignment leaves the range as it is at that moment.
\<close>

fun std_copy :: "'a elem_type \<Rightarrow> ptr \<Rightarrow> nat \<Rightarrow> ptr \<Rightarrow> 'a state \<Rightarrow> (unit, 'a) result" where
  "std_copy T first 0 d_first s = Ok () s"
| "std_copy T first (Suc n) d_first s =
     (case copy_assign T d_first first s of
        Ok _ s1 \<Rightarrow> std_copy T (ptr_add first 1) n (ptr_add d_first 1) s1
      | Throw e s1 \<Rightarrow> Throw e s1
      | UB \<Rightarrow> UB)"

fun std_move :: "'a elem_type \<Rightarrow> ptr \<Rightarrow> nat \<Rightarrow> ptr \<Rightarrow> 'a state \<Rightarrow> (unit, 'a) result" where
  "std_move T first 0 d_first s = Ok () s"
| "std_move T first (Suc n) d_first s =
     (case move_assign T d_first first s of
        Ok _ s1 \<Rightarrow> std_move T (ptr_add first 1) n (ptr_add d_first 1) s1
      | Throw e s1 \<Rightarrow> Throw e s1
      | UB \<Rightarrow> UB)"

fun move_backward :: "'a elem_type \<Rightarrow> ptr \<Rightarrow> nat \<Rightarrow> ptr \<Rightarrow> 'a state \<Rightarrow> (unit, 'a) result" where
  "move_backward T first 0 d_last s = Ok () s"
| "move_backward T first (Suc n) d_last s =
     (if snd d_last = 0 then UB
      else case move_assign T (ptr_sub d_last 1) (ptr_add first n) s of
        Ok _ s1 \<Rightarrow> move_backward T first n (ptr_sub d_last 1) s1
      | Throw e s1 \<Rightarrow> Throw e s1
      | UB \<Rightarrow> UB)"

section \<open>RawMemory\<close>

text \<open>
  \<^verbatim>\<open>Allocate(n)\<close> is \<^verbatim>\<open>n != 0 ? operator new(n * sizeof(T)) : nullptr\<close>. The product is
  computed in \<^verbatim>\<open>size_t\<close> and wraps at \<open>2\<^sup>6\<^sup>4\<close>, so the block that \<^verbatim>\<open>operator new\<close> hands out
  holds \<open>slots T n\<close> whole slots: \<open>n\<close> of them when the product is below \<open>2\<^sup>6\<^sup>4\<close>, fewer
  otherwise (\<^verbatim>\<open>operator new(0)\<close> returns a block of no slots). \<^verbatim>\<open>operator new\<close> may throw
  \<^verbatim>\<open>std::bad_alloc\<close>; a request for no slots allocates nothing. \<^verbatim>\<open>Deallocate\<close>:
  \<^verbatim>\<open>operator delete\<close> of a null pointer does nothing, of a block that is not allocated
  is undefined; no destructor runs.
\<close>

definition slots :: "'a elem_type \<Rightarrow> nat \<Rightarrow> nat" where
  "slots T n = (n * size_of T mod 2 ^ 64) div size_of T"

definition Allocate :: "'a elem_type \<Rightarrow> nat \<Rightarrow> 'a state \<Rightarrow> (addr, 'a) result" where
  "Allocate T n s =
     (if n \<noteq> 0 then
        and_then (fallible T BadAlloc s) (\<lambda>_ s1.
          Ok (next_addr s1)
             (s1\<lparr>blocks := (blocks s1)(next_addr s1 \<mapsto> slots T n),
                next_addr := Suc (next_addr s1)\<rparr>))
      else Ok nullptr s)"

definition Deallocate :: "addr \<Rightarrow> 'a state \<Rightarrow> (unit, 'a) result" where
  "Deallocate buf s =
     (if buf = nullptr then Ok () s
      else case blocks s buf of
        None \<Rightarrow> UB
      | Some _ \<Rightarrow> Ok () (s\<lparr>blocks := (blocks s)(buf := None)\<rparr>))"

definition RawMemory_default :: RawMemory where
  "RawMemory_default = \<lparr>raw_buffer = nullptr, raw_capacity = 0\<rparr>"

definition RawMemory_sized :: "'a elem_type \<Rightarrow> nat \<Rightarrow> 'a state \<Rightarrow> (RawMemory, 'a) result" where
  "RawMemory_sized T capacity s =
     and_then (Allocate T capacity s) (\<lambda>b s1. Ok \<lparr>raw_buffer = b, raw_capacity = capacity\<rparr> s1)"

definition RawMemory_destroy :: "RawMemory \<Rightarrow> 'a state \<Rightarrow> (unit, 'a) result" where
  "RawMemory_destroy m s = Deallocate (raw_buffer m) s"

definition GetAddress :: "RawMemory \<Rightarrow> ptr" where
  "GetAddress m = (raw_buffer m, 0)"

text \<open>
  A local \<^verbatim>\<open>RawMemory<T> new_data(n)\<close> with the block that uses it. The body returns
  what \<^verbatim>\<open>new_data\<close> holds at the end of the scope (after a \<^verbatim>\<open>Swap\<close>: the old buffer);
  the destructor of the local releases that, and releases the new block when the body
  throws.
\<close>

definition with_new_data ::
  "'a elem_type \<Rightarrow> nat \<Rightarrow> (RawMemory \<Rightarrow> 'a state \<Rightarrow> (RawMemory, 'a) result) \<Rightarrow> 'a state
     \<Rightarrow> (unit, 'a) result" where
  "with_new_data T n body s =
     and_then (RawMemory_sized T n s) (\<lambda>new_data s1.
       case body new_data s1 of
         Ok new_data' s2 \<Rightarrow> RawMemory_destroy new_data' s2
       | Throw e s2 \<Rightarrow> rethrow e (RawMemory_destroy new_data s2)
       | UB \<Rightarrow> UB)"

section \<open>Vector\<close>

definition Vector_default :: Vector where
  "Vector_default = \<lparr>vec_data = RawMemory_default, vec_size = 0\<rparr>"

definition Size :: "'a state \<Rightarrow> vref \<Rightarrow> nat" where
  "Size s this = vec_size (vecs s this)"

definition Capacity :: "'a state \<Rightarrow> vref \<Rightarrow> nat" where
  "Capacity s this = raw_capacity (vec_data (vecs s this))"

definition Vector_begin :: "'a state \<Rightarrow> vref \<Rightarrow> ptr" where
  "Vector_begin s this = GetAddress (vec_data (vecs s this))"

definition Vector_end :: "'a state \<Rightarrow> vref \<Rightarrow> ptr" where
  "Vector_end s this = ptr_add (GetAddress (vec_data (vecs s this))) (vec_size (vecs s this))"

definition set_data :: "vref \<Rightarrow> RawMemory \<Rightarrow> 'a state \<Rightarrow> 'a state" where
  "set_data this d s = s\<lparr>vecs := (vecs s)(this := (vecs s this)\<lparr>vec_data := d\<rparr>)\<rparr>"

definition set_size :: "vref \<Rightarrow> nat \<Rightarrow> 'a state \<Rightarrow> 'a state" where
  "set_size this n s = s\<lparr>vecs := (vecs s)(this := (vecs s this)\<lparr>vec_size := n\<rparr>)\<rparr>"

text \<open>\<^verbatim>\<open>operator[]\<close>: an index past the size is a violated assertion.\<close>

definition Vector_index :: "'a state \<Rightarrow> vref \<Rightarrow> nat \<Rightarrow> 'a option" where
  "Vector_index s this index =
     (if index < Size s this then obj s (ptr_add (Vector_begin s this) index) else None)"

text \<open>\<^verbatim>\<open>Swap\<close>: \<^verbatim>\<open>data_.Swap(other.data_); size_ = std::exchange(other.size_, size_);\<close>\<close>

definition Swap :: "vref \<Rightarrow> vref \<Rightarrow> 'a state \<Rightarrow> 'a state" where
  "Swap this other s =
     (let d = vec_data (vecs s this);
          s1 = set_data this (vec_data (vecs s other)) s;
          s2 = set_data other d s1;
          old = vec_size (vecs s2 other);
          s3 = set_size other (vec_size (vecs s2 this)) s2
      in set_size this old s3)"

text \<open>\<^verbatim>\<open>~Vector\<close>, then the destructor of the member \<^verbatim>\<open>data_\<close>.\<close>

definition Vector_destroy :: "Vector \<Rightarrow> 'a state \<Rightarrow> (unit, 'a) result" where
  "Vector_destroy v s =
     and_then (destroy_n (GetAddress (vec_data v)) (vec_size v) s) (\<lambda>_ s1.
       RawMemory_destroy (vec_data v) s1)"

text \<open>
  \<^verbatim>\<open>Vector(const Vector& other)\<close>, as the value of the new object. When a copy throws,
  the member \<^verbatim>\<open>data_\<close>, already constructed, is destroyed.
\<close>

definition Vector_copy :: "'a elem_type \<Rightarrow> vref \<Rightarrow> 'a state \<Rightarrow> (Vector, 'a) result" where
  "Vector_copy T other s =
     and_then (RawMemory_sized T (Size s other) s) (\<lambda>d s1.
       case uninitialized_copy_n T (Vector_begin s1 other) (Size s other) (GetAddress d) s1 of
         Ok _ s2 \<Rightarrow> Ok \<lparr>vec_data = d, vec_size = Size s other\<rparr> s2
       | Throw e s2 \<Rightarrow> rethrow e (RawMemory_destroy d s2)
       | UB \<Rightarrow> UB)"

text \<open>The constructors, building the object at the reference \<open>this\<close>.\<close>

definition Vector_ctor :: "vref \<Rightarrow> 'a state \<Rightarrow> 'a state" where
  "Vector_ctor this s = s\<lparr>vecs := (vecs s)(this := Vector_default)\<rparr>"

definition Vector_copy_ctor :: "'a elem_type \<Rightarrow> vref \<Rightarrow> vref \<Rightarrow> 'a state \<Rightarrow> (unit, 'a) result" where
  "Vector_copy_ctor T this other s =
     and_then (Vector_copy T other s) (\<lambda>v s1. Ok () (s1\<lparr>vecs := (vecs s1)(this := v)\<rparr>))"

definition Vector_move_ctor :: "vref \<Rightarrow> vref \<Rightarrow> 'a state \<Rightarrow> 'a state" where
  "Vector_move_ctor this other s = Swap this other (Vector_ctor this s)"

definition Vector_sized_ctor :: "'a elem_type \<Rightarrow> vref \<Rightarrow> nat \<Rightarrow> 'a state \<Rightarrow> (unit, 'a) result" where
  "Vector_sized_ctor T this n s =
     and_then (RawMemory_sized T n s) (\<lambda>d s1.
       case uninitialized_value_construct_n T (GetAddress d) n s1 of
         Ok _ s2 \<Rightarrow> Ok () (s2\<lparr>vecs := (vecs s2)(this := \<lparr>vec_data = d, vec_size = n\<rparr>)\<rparr>)
       | Throw e s2 \<Rightarrow> rethrow e (RawMemory_destroy d s2)
       | UB \<Rightarrow> UB)"

definition uses_move :: "'a elem_type \<Rightarrow> bool" where
  "uses_move T = (nothrow_move_constructible T \<or> \<not> copy_constructible T)"

definition CopyOrMove :: "'a elem_type \<Rightarrow> vref \<Rightarrow> RawMemory \<Rightarrow> 'a state \<Rightarrow> (unit, 'a) result" where
  "CopyOrMove T this new_data s =
     (if nothrow_move_constructible T \<or> \<not> copy_constructible T
      then uninitialized_move_n T (Vector_begin s this) (Size s this) (GetAddress new_data) s
      else uninitialized_copy_n T (Vector_begin s this) (Size s this) (GetAddress new_data) s)"

definition Reserve :: "'a elem_type \<Rightarrow> vref \<Rightarrow> nat \<Rightarrow> 'a state \<Rightarrow> (unit, 'a) result" where
  "Reserve T this new_capacity s =
     (if new_capacity \<le> Capacity s this then Ok () s
      else with_new_data T new_capacity (\<lambda>new_data s1.
             and_then (CopyOrMove T this new_data s1) (\<lambda>_ s2.
             and_then (destroy_n (Vector_begin s2 this) (Size s2 this) s2) (\<lambda>_ s3.
             Ok (vec_data (vecs s3 this)) (set_data this new_data s3)))) s)"

text \<open>
  \<^verbatim>\<open>operator=(const Vector& rhs)\<close>. In the copy-and-swap branch the local \<^verbatim>\<open>rhs_copy\<close>
  takes the old contents of \<^verbatim>\<open>*this\<close> and is destroyed at the end of the scope.
\<close>

definition Vector_copy_assign :: "'a elem_type \<Rightarrow> vref \<Rightarrow> vref \<Rightarrow> 'a state \<Rightarrow> (unit, 'a) result" where
  "Vector_copy_assign T this rhs s =
     (if this = rhs then Ok () s
      else if Capacity s this < Size s rhs then
        and_then (Vector_copy T rhs s) (\<lambda>rhs_copy s1.
          Vector_destroy (vecs s1 this) (s1\<lparr>vecs := (vecs s1)(this := rhs_copy)\<rparr>))
      else
        and_then
          (if Size s rhs < Size s this then
             and_then (std_copy T (Vector_begin s rhs) (Size s rhs) (Vector_begin s this) s) (\<lambda>_ s1.
               destroy_n (ptr_add (Vector_begin s1 this) (Size s1 rhs))
                 (Size s1 this - Size s1 rhs) s1)
           else
             and_then (std_copy T (Vector_begin s rhs) (Size s this) (Vector_begin s this) s) (\<lambda>_ s1.
               uninitialized_copy_n T (ptr_add (Vector_begin s1 rhs) (Size s1 this))
                 (Size s1 rhs - Size s1 this) (ptr_add (Vector_begin s1 this) (Size s1 this)) s1))
          (\<lambda>_ s2. Ok () (set_size this (Size s2 rhs) s2)))"

text \<open>
  \<^verbatim>\<open>operator=(Vector&& rhs)\<close>: \<^verbatim>\<open>data_ = std::move(rhs.data_)\<close> is the move assignment of
  \<^verbatim>\<open>RawMemory\<close>, which copies the two fields and clears the source's; then
  \<^verbatim>\<open>size_ = std::exchange(rhs.size_, 0)\<close>. Nothing is destroyed and nothing released.
\<close>

definition Vector_move_assign :: "vref \<Rightarrow> vref \<Rightarrow> 'a state \<Rightarrow> 'a state" where
  "Vector_move_assign this rhs s =
     (let s1 = set_data this (vec_data (vecs s rhs)) s;
          s2 = set_data rhs \<lparr>raw_buffer = nullptr, raw_capacity = 0\<rparr> s1;
          old = vec_size (vecs s2 rhs);
          s3 = set_size rhs 0 s2
      in set_size this old s3)"

definition Resize :: "'a elem_type \<Rightarrow> vref \<Rightarrow> nat \<Rightarrow> 'a state \<Rightarrow> (unit, 'a) result" where
  "Resize T this new_size s =
     and_then
       (if new_size < Size s this then
          destroy_n (ptr_add (Vector_begin s this) new_size) (Size s this - new_size) s
        else
          and_then (Reserve T this new_size s) (\<lambda>_ s1.
            uninitialized_value_construct_n T (ptr_add (Vector_begin s1 this) (Size s1 this))
              (new_size - Size s1 this) s1))
       (\<lambda>_ s2. Ok () (set_size this new_size s2))"

definition PopBack :: "vref \<Rightarrow> 'a state \<Rightarrow> (unit, 'a) result" where
  "PopBack this s =
     (if Size s this = 0 then UB
      else and_then (destroy_at (ptr_sub (Vector_end s this) 1) s) (\<lambda>_ s1.
             Ok () (set_size this (Size s1 this - 1) s1)))"

text \<open>
  \<^verbatim>\<open>EmplaceBack\<close>: returns the address of the new last element. In the growing branch
  the new element is constructed in the new block before the old elements are
  transferred.
\<close>

definition EmplaceBack :: "'a elem_type \<Rightarrow> vref \<Rightarrow> 'a arg \<Rightarrow> 'a state \<Rightarrow> (ptr, 'a) result" where
  "EmplaceBack T this values s =
     and_then
       (if Size s this = Capacity s this then
          with_new_data T (if Size s this = 0 then 1 else Capacity s this * 2) (\<lambda>new_data s1.
            and_then (construct T (ptr_add (GetAddress new_data) (Size s1 this)) values s1) (\<lambda>_ s2.
            and_then (CopyOrMove T this new_data s2) (\<lambda>_ s3.
            and_then (destroy_n (Vector_begin s3 this) (Size s3 this) s3) (\<lambda>_ s4.
            Ok (vec_data (vecs s4 this)) (set_data this new_data s4))))) s
        else construct T (Vector_end s this) values s)
       (\<lambda>_ s5. Ok (Vector_end s5 this) (set_size this (Suc (Size s5 this)) s5))"

definition PushBack :: "'a elem_type \<Rightarrow> vref \<Rightarrow> 'a arg \<Rightarrow> 'a state \<Rightarrow> (unit, 'a) result" where
  "PushBack T this v s = and_then (EmplaceBack T this v s) (\<lambda>_ s1. Ok () s1)"

text \<open>\<^verbatim>\<open>int pos_index = pos - begin();\<close>: the difference, narrowed to 32 bits.\<close>

definition to_int :: "nat \<Rightarrow> int" where
  "to_int n = sint (word_of_nat n :: 32 word)"

text \<open>
  \<^verbatim>\<open>Emplace(pos, values...)\<close>. A position that is not an iterator of this vector, a
  negative index, and a range whose end lies before its start are undefined.
\<close>

definition Emplace :: "'a elem_type \<Rightarrow> vref \<Rightarrow> ptr \<Rightarrow> 'a arg \<Rightarrow> 'a state \<Rightarrow> (ptr, 'a) result" where
  "Emplace T this pos values s =
     (if pos = Vector_end s this then
        and_then (EmplaceBack T this values s) (\<lambda>_ s1.
          if Size s1 this = 0 then UB else Ok (ptr_sub (Vector_end s1 this) 1) s1)
      else if fst pos \<noteq> fst (Vector_begin s this) then UB
      else if to_int (snd pos) < 0 then UB
      else
        let pos_index = nat (to_int (snd pos));
            pos_non_const = ptr_add (Vector_begin s this) pos_index
        in
        if Size s this < Suc pos_index then UB
        else
          and_then
            (if Size s this < Capacity s this then
               and_then (move_construct T (Vector_end s this) (ptr_sub (Vector_end s this) 1) s) (\<lambda>_ s1.
               and_then (move_backward T pos_non_const (Size s1 this - 1 - pos_index)
                           (Vector_end s1 this) s1) (\<lambda>_ s2.
               assign_temporary T pos_non_const values s2))
             else
               with_new_data T (if Size s this = 0 then 1 else Capacity s this * 2) (\<lambda>new_data s1.
                 and_then (construct T (ptr_add (GetAddress new_data) pos_index) values s1) (\<lambda>_ s2.
                 and_then
                   (if nothrow_move_constructible T \<or> \<not> copy_constructible T then
                      and_then (uninitialized_move_n T (Vector_begin s2 this) pos_index
                                  (GetAddress new_data) s2) (\<lambda>_ s3.
                        uninitialized_move_n T pos_non_const (Size s3 this - pos_index)
                          (ptr_add (GetAddress new_data) (pos_index + 1)) s3)
                    else
                      and_then (uninitialized_copy_n T (Vector_begin s2 this) pos_index
                                  (GetAddress new_data) s2) (\<lambda>_ s3.
                        uninitialized_copy_n T pos_non_const (Size s3 this - pos_index)
                          (ptr_add (GetAddress new_data) (pos_index + 1)) s3))
                   (\<lambda>_ s4.
                 and_then (destroy_n (Vector_begin s4 this) (Size s4 this) s4) (\<lambda>_ s5.
                 Ok (vec_data (vecs s5 this)) (set_data this new_data s5))))) s)
            (\<lambda>_ s6.
               let s7 = set_size this (Suc (Size s6 this)) s6
               in Ok (ptr_add (Vector_begin s7 this) pos_index) s7))"

definition Insert :: "'a elem_type \<Rightarrow> vref \<Rightarrow> ptr \<Rightarrow> 'a arg \<Rightarrow> 'a state \<Rightarrow> (ptr, 'a) result" where
  "Insert T this pos v s = Emplace T this pos v s"

text \<open>\<^verbatim>\<open>Erase(pos)\<close>\<close>

definition Erase :: "'a elem_type \<Rightarrow> vref \<Rightarrow> ptr \<Rightarrow> 'a state \<Rightarrow> (ptr, 'a) result" where
  "Erase T this pos s =
     (if fst pos \<noteq> fst (Vector_begin s this) then UB
      else if to_int (snd pos) < 0 then UB
      else
        let pos_index = nat (to_int (snd pos))
        in
        if Size s this < pos_index + 1 then UB
        else
          and_then (std_move T (ptr_add (Vector_begin s this) (pos_index + 1))
                      (Size s this - (pos_index + 1))
                      (ptr_add (Vector_begin s this) pos_index) s) (\<lambda>_ s1.
            let s2 = set_size this (Size s1 this - 1) s1
            in and_then (destroy_at (Vector_end s2 this) s2) (\<lambda>_ s3.
                 Ok (ptr_add (Vector_begin s3 this) pos_index) s3)))"

section \<open>Well-formed states and example data\<close>

text \<open>
  The invariant of the data model. Of the heap: \<^verbatim>\<open>nullptr\<close> is no block and nothing lies
  at or beyond the next fresh address. Of a vector: its size is at most its capacity,
  a vector of capacity 0 holds \<^verbatim>\<open>nullptr\<close> and any other owns an allocated block of
  exactly its capacity, the slots below the size hold live objects and all others are
  raw.
\<close>

definition wf_heap :: "'a state \<Rightarrow> bool" where
  "wf_heap s =
     (0 < next_addr s \<and> blocks s nullptr = None \<and>
      (\<forall>a. next_addr s \<le> a \<longrightarrow> blocks s a = None \<and> (\<forall>i. mem s (a, i) = None)))"

definition wf_vec :: "'a state \<Rightarrow> vref \<Rightarrow> bool" where
  "wf_vec s this =
     (let b = raw_buffer (vec_data (vecs s this)); c = raw_capacity (vec_data (vecs s this));
          n = vec_size (vecs s this)
      in n \<le> c \<and> (if c = 0 then b = nullptr else blocks s b = Some c \<and> b < next_addr s) \<and>
         (\<forall>i. i < n \<longrightarrow> mem s (b, i) \<noteq> None) \<and> (\<forall>i. n \<le> i \<longrightarrow> mem s (b, i) = None))"

definition wf_state :: "'a state \<Rightarrow> vref \<Rightarrow> bool" where
  "wf_state s this = (wf_heap s \<and> wf_vec s this)"

text \<open>The live elements of a vector, in order.\<close>

definition elems :: "'a state \<Rightarrow> vref \<Rightarrow> 'a option list" where
  "elems s this = map (\<lambda>i. Vector_index s this i) [0..<Size s this]"

text \<open>No fallible event fails from now on.\<close>

definition calm :: "'a elem_type \<Rightarrow> 'a state \<Rightarrow> bool" where
  "calm T s = (\<forall>k. ticks s \<le> k \<longrightarrow> \<not> fails T k)"

text \<open>
  A request for \<open>n\<close> slots fits when its byte count is representable in \<^verbatim>\<open>size_t\<close>; the
  block then holds the \<open>n\<close> slots. Every block that exists on a 64-bit platform is far
  smaller, so doubling the capacity of a vector that exists always fits.
\<close>

definition fits :: "'a elem_type \<Rightarrow> nat \<Rightarrow> bool" where
  "fits T n = (0 < size_of T \<and> n * size_of T < 2 ^ 64)"

text \<open>
  An element type like \<^verbatim>\<open>int\<close>, and a state with two vectors: number 0 holds \<open>[1]\<close> in
  a block of one slot, number 1 holds \<open>[2, 3]\<close> in a block of two.
\<close>

definition T_int :: "int elem_type" where
  "T_int = \<lparr>nothrow_move_constructible = True, copy_constructible = True,
            moved_from = (\<lambda>x. x), value_init = 0, fails = (\<lambda>_. False), size_of = 4\<rparr>"

definition two_vectors :: "int state" where
  "two_vectors =
     \<lparr>blocks = (\<lambda>a. if a = 1 then Some 1 else if a = 2 then Some 2 else None),
      mem = (\<lambda>q. if q = (1, 0) then Some 1 else if q = (2, 0) then Some 2
                 else if q = (2, 1) then Some 3 else None),
      next_addr = 3,
      vecs = (\<lambda>r. if r = 0 then \<lparr>vec_data = \<lparr>raw_buffer = 1, raw_capacity = 1\<rparr>, vec_size = 1\<rparr>
                  else if r = 1 then \<lparr>vec_data = \<lparr>raw_buffer = 2, raw_capacity = 2\<rparr>, vec_size = 2\<rparr>
                  else Vector_default),
      ticks = 0\<rparr>"

text \<open>
  What the loops of the standard library leave in memory, in closed form: \<open>kill\<close> after
  \<^verbatim>\<open>destroy_n\<close>, \<open>cpy\<close> after copying a range into another block, \<open>mvr\<close> after moving a
  range into another block (the sources are left moved-from), \<open>shl\<close> after moving a
  range one slot to the left and \<open>shr\<close> after moving it one slot to the right inside a
  block.
\<close>

definition kill :: "ptr \<Rightarrow> nat \<Rightarrow> (ptr \<Rightarrow> 'a option) \<Rightarrow> ptr \<Rightarrow> 'a option" where
  "kill p n m = (\<lambda>q. if fst q = fst p \<and> snd p \<le> snd q \<and> snd q < snd p + n then None else m q)"

definition shl :: "'a elem_type \<Rightarrow> addr \<Rightarrow> nat \<Rightarrow> nat \<Rightarrow> (ptr \<Rightarrow> 'a option) \<Rightarrow> ptr \<Rightarrow> 'a option" where
  "shl T a i n m =
     (\<lambda>q. if fst q = a \<and> i \<le> snd q \<and> snd q < i + n then m (a, Suc (snd q))
          else if q = (a, i + n) \<and> 0 < n then map_option (moved_from T) (m q)
          else m q)"

definition cpy :: "ptr \<Rightarrow> ptr \<Rightarrow> nat \<Rightarrow> nat \<Rightarrow> (ptr \<Rightarrow> 'a option) \<Rightarrow> ptr \<Rightarrow> 'a option" where
  "cpy f d i n m =
     (\<lambda>q. if fst q = fst d \<and> snd d + i \<le> snd q \<and> snd q < snd d + i + n
          then m (fst f, snd f + (snd q - snd d)) else m q)"

definition mvr :: "'a elem_type \<Rightarrow> ptr \<Rightarrow> ptr \<Rightarrow> nat \<Rightarrow> nat \<Rightarrow> (ptr \<Rightarrow> 'a option) \<Rightarrow> ptr \<Rightarrow> 'a option" where
  "mvr T f d i n m =
     (\<lambda>q. if fst q = fst d \<and> snd d + i \<le> snd q \<and> snd q < snd d + i + n
          then m (fst f, snd f + (snd q - snd d))
          else if fst q = fst f \<and> snd f + i \<le> snd q \<and> snd q < snd f + i + n
          then map_option (moved_from T) (m q) else m q)"

definition shr :: "'a elem_type \<Rightarrow> addr \<Rightarrow> nat \<Rightarrow> nat \<Rightarrow> (ptr \<Rightarrow> 'a option) \<Rightarrow> ptr \<Rightarrow> 'a option" where
  "shr T a p n m =
     (\<lambda>q. if fst q = a \<and> p < snd q \<and> snd q \<le> p + n then m (a, snd q - 1)
          else if q = (a, p) \<and> 0 < n then map_option (moved_from T) (m q)
          else m q)"

definition transferred :: "ptr \<Rightarrow> nat \<Rightarrow> ptr \<Rightarrow> (ptr \<Rightarrow> 'a option) \<Rightarrow> (ptr \<Rightarrow> 'a option) \<Rightarrow> bool" where
  "transferred f n d m M =
     ((\<forall>i. i < n \<longrightarrow> M (fst d, snd d + i) = m (fst f, snd f + i)) \<and>
      (\<forall>i. i < n \<longrightarrow> M (fst f, snd f + i) \<noteq> None) \<and>
      (\<forall>q. \<not> (fst q = fst d \<and> snd d \<le> snd q \<and> snd q < snd d + n) \<and>
           \<not> (fst q = fst f \<and> snd f \<le> snd q \<and> snd q < snd f + n) \<longrightarrow> M q = m q))"

text \<open>The state of a program that has allocated nothing; every vector in it is default-constructed.\<close>

definition empty_state :: "int state" where
  "empty_state = \<lparr>blocks = (\<lambda>_. None), mem = (\<lambda>_. None), next_addr = 1,
                   vecs = (\<lambda>_. Vector_default), ticks = 0\<rparr>"

text \<open>\<open>c\<close> is the smallest power of two that is at least \<open>k\<close>.\<close>

definition least_pow2 :: "nat \<Rightarrow> nat \<Rightarrow> bool" where
  "least_pow2 c k = (\<exists>e. c = 2 ^ e \<and> k \<le> 2 ^ e \<and> (\<forall>m. k \<le> 2 ^ m \<longrightarrow> e \<le> m))"

text \<open>
  A state whose vector 0 holds \<open>[1, 2, 3]\<close> in a block of four slots, and one whose
  vector 0 holds \<open>2\<^sup>3\<^sup>1 + 1\<close> zeros. \<open>T_fail_at k\<close> is \<open>T_int\<close> whose fallible event
  number \<open>k\<close> throws.
\<close>

definition spare_vector :: "int state" where
  "spare_vector =
     \<lparr>blocks = (\<lambda>a. if a = 1 then Some 4 else None),
      mem = (\<lambda>q. if q = (1, 0) then Some 1 else if q = (1, 1) then Some 2
                 else if q = (1, 2) then Some 3 else None),
      next_addr = 2,
      vecs = (\<lambda>r. if r = 0 then \<lparr>vec_data = \<lparr>raw_buffer = 1, raw_capacity = 4\<rparr>, vec_size = 3\<rparr>
                  else Vector_default),
      ticks = 0\<rparr>"

definition huge_vector :: "int state" where
  "huge_vector =
     \<lparr>blocks = (\<lambda>a. if a = 1 then Some (2 ^ 31 + 1) else None),
      mem = (\<lambda>q. if fst q = 1 \<and> snd q < 2 ^ 31 + 1 then Some 0 else None),
      next_addr = 2,
      vecs = (\<lambda>r. if r = 0 then \<lparr>vec_data = \<lparr>raw_buffer = 1, raw_capacity = 2 ^ 31 + 1\<rparr>,
                                  vec_size = 2 ^ 31 + 1\<rparr>
                  else Vector_default),
      ticks = 0\<rparr>"

definition T_fail_at :: "nat \<Rightarrow> int elem_type" where
  "T_fail_at k = T_int\<lparr>fails := (\<lambda>n. n = k)\<rparr>"

text \<open>
  A state whose vector 0 holds \<open>[1, 2, 3]\<close> in a block of exactly three slots, and an
  element type that is copied on reallocation (its move constructor may throw) and whose
  fallible event number \<open>k\<close> throws.
\<close>

definition full_vector :: "int state" where
  "full_vector =
     \<lparr>blocks = (\<lambda>a. if a = 1 then Some 3 else None),
      mem = (\<lambda>q. if q = (1, 0) then Some 1 else if q = (1, 1) then Some 2
                 else if q = (1, 2) then Some 3 else None),
      next_addr = 2,
      vecs = (\<lambda>r. if r = 0 then \<lparr>vec_data = \<lparr>raw_buffer = 1, raw_capacity = 3\<rparr>, vec_size = 3\<rparr>
                  else Vector_default),
      ticks = 0\<rparr>"

definition T_copied_fail_at :: "nat \<Rightarrow> int elem_type" where
  "T_copied_fail_at k =
     \<lparr>nothrow_move_constructible = False, copy_constructible = True,
      moved_from = (\<lambda>x. x), value_init = 0, fails = (\<lambda>n. n = k), size_of = 4\<rparr>"

text \<open>
  What an operation may leave behind: \<open>post r Q E\<close> says that \<open>Q\<close> holds of the value and
  the state when \<open>r\<close> is a normal return and \<open>E\<close> of the state when \<open>r\<close> is an exception.
  \<open>frame W s s'\<close>: from \<open>s\<close> to \<open>s'\<close> no vector object changed, and of the blocks that
  existed in \<open>s\<close> only those in \<open>W\<close> were written or released; \<^verbatim>\<open>nullptr\<close> stays no block.
  \<open>changed this s s'\<close>: the same for a member function of the vector \<open>this\<close>, which may
  write its own buffer, may update its own object and may move it to a fresh block.
  \<open>keeps W s r\<close> and \<open>alters this s r\<close> say so of the state that the result \<open>r\<close> leaves,
  whether it returns or throws; \<open>reach W s a\<close>: the block \<open>a\<close> is one of \<open>W\<close> or was allocated
  after \<open>s\<close>.
\<close>

definition post :: "('r, 'a) result \<Rightarrow> ('r \<Rightarrow> 'a state \<Rightarrow> bool) \<Rightarrow> ('a state \<Rightarrow> bool) \<Rightarrow> bool" where
  "post r Q E = (case r of Ok x s' \<Rightarrow> Q x s' | Throw e s' \<Rightarrow> E s' | UB \<Rightarrow> True)"

definition frame :: "addr set \<Rightarrow> 'a state \<Rightarrow> 'a state \<Rightarrow> bool" where
  "frame W s s' =
     (vecs s' = vecs s \<and> next_addr s \<le> next_addr s' \<and>
      (\<forall>a. a < next_addr s \<and> a \<notin> W \<longrightarrow> blocks s' a = blocks s a \<and> (\<forall>i. mem s' (a, i) = mem s (a, i))) \<and>
      (0 < next_addr s \<and> blocks s nullptr = None \<longrightarrow>
         blocks s' nullptr = None \<and> (\<forall>i. mem s' (nullptr, i) = mem s (nullptr, i))))"

definition buffer_of :: "'a state \<Rightarrow> vref \<Rightarrow> addr" where
  "buffer_of s this = raw_buffer (vec_data (vecs s this))"

definition changed :: "vref \<Rightarrow> 'a state \<Rightarrow> 'a state \<Rightarrow> bool" where
  "changed this s s' =
     ((\<forall>r. r \<noteq> this \<longrightarrow> vecs s' r = vecs s r) \<and> next_addr s \<le> next_addr s' \<and>
      (\<forall>a. a < next_addr s \<and> a \<noteq> buffer_of s this \<longrightarrow>
           blocks s' a = blocks s a \<and> (\<forall>i. mem s' (a, i) = mem s (a, i))) \<and>
      (0 < next_addr s \<and> blocks s nullptr = None \<longrightarrow>
         blocks s' nullptr = None \<and> (\<forall>i. mem s' (nullptr, i) = mem s (nullptr, i))) \<and>
      (buffer_of s' this = buffer_of s this \<or> next_addr s \<le> buffer_of s' this))"

definition keeps :: "addr set \<Rightarrow> 'a state \<Rightarrow> ('r, 'a) result \<Rightarrow> bool" where
  "keeps W s0 r = post r (\<lambda>_. frame W s0) (frame W s0)"

definition alters :: "vref \<Rightarrow> 'a state \<Rightarrow> ('r, 'a) result \<Rightarrow> bool" where
  "alters this s0 r = post r (\<lambda>_. changed this s0) (changed this s0)"

definition reach :: "addr set \<Rightarrow> 'a state \<Rightarrow> addr \<Rightarrow> bool" where
  "reach W s0 a = (a \<in> W \<or> next_addr s0 \<le> a)"

text \<open>
  The calls that modify one vector. A position is given by its index \<open>k\<close>, standing
  for the iterator \<^verbatim>\<open>begin() + k\<close>. A program that catches the exception of a call
  goes on with the state the call has left; after undefined behaviour there is no
  state to go on with.
\<close>

datatype 'a mutation =
    CallReserve nat | CallResize nat | CallPushBack "'a arg" | CallPopBack
  | CallEmplaceBack "'a arg" | CallInsert nat "'a arg" | CallEmplace nat "'a arg" | CallErase nat

fun discard :: "('r, 'a) result \<Rightarrow> (unit, 'a) result" where
  "discard (Ok _ s) = Ok () s"
| "discard (Throw e s) = Throw e s"
| "discard UB = UB"

fun mutate :: "'a elem_type \<Rightarrow> vref \<Rightarrow> 'a mutation \<Rightarrow> 'a state \<Rightarrow> (unit, 'a) result" where
  "mutate T this (CallReserve n) s = Reserve T this n s"
| "mutate T this (CallResize n) s = Resize T this n s"
| "mutate T this (CallPushBack v) s = PushBack T this v s"
| "mutate T this CallPopBack s = PopBack this s"
| "mutate T this (CallEmplaceBack v) s = discard (EmplaceBack T this v s)"
| "mutate T this (CallInsert k v) s = discard (Insert T this (ptr_add (Vector_begin s this) k) v s)"
| "mutate T this (CallEmplace k v) s = discard (Emplace T this (ptr_add (Vector_begin s this) k) v s)"
| "mutate T this (CallErase k) s = discard (Erase T this (ptr_add (Vector_begin s this) k) s)"

fun mutations :: "'a elem_type \<Rightarrow> vref \<Rightarrow> 'a mutation list \<Rightarrow> 'a state \<Rightarrow> 'a state option" where
  "mutations T this [] s = Some s"
| "mutations T this (m # ms) s =
     (case mutate T this m s of
        Ok _ s1 \<Rightarrow> mutations T this ms s1
      | Throw _ s1 \<Rightarrow> mutations T this ms s1
      | UB \<Rightarrow> None)"

text \<open>
  Consecutive appends. \<open>arg_of\<close> is the argument of a call of \<^verbatim>\<open>PushBack\<close> or
  \<^verbatim>\<open>EmplaceBack\<close>; \<open>calls\<close> is a sequence of calls that stops at the first that does not
  return; \<open>readable\<close> says that every call is an append whose argument, a value or a
  reference to a live object (possibly an element of the vector itself), can be read at
  the moment of its call; \<open>appended\<close> lists what the arguments hold at those moments.
\<close>

fun arg_of :: "'a mutation \<Rightarrow> 'a arg option" where
  "arg_of (CallPushBack a) = Some a"
| "arg_of (CallEmplaceBack a) = Some a"
| "arg_of (CallReserve n) = None"
| "arg_of (CallResize n) = None"
| "arg_of CallPopBack = None"
| "arg_of (CallInsert k a) = None"
| "arg_of (CallEmplace k a) = None"
| "arg_of (CallErase k) = None"

fun calls :: "'a elem_type \<Rightarrow> vref \<Rightarrow> 'a mutation list \<Rightarrow> 'a state \<Rightarrow> (unit, 'a) result" where
  "calls T this [] s = Ok () s"
| "calls T this (m # ms) s = and_then (mutate T this m s) (\<lambda>_ s1. calls T this ms s1)"

text \<open>\<open>k\<close> consecutive calls of \<^verbatim>\<open>PushBack\<close>, stopping at the first that fails.\<close>

fun appends :: "'a elem_type \<Rightarrow> vref \<Rightarrow> 'a arg list \<Rightarrow> 'a state \<Rightarrow> (unit, 'a) result" where
  "appends T this [] s = Ok () s"
| "appends T this (x # xs) s = and_then (PushBack T this x s) (\<lambda>_ s1. appends T this xs s1)"

fun readable :: "'a elem_type \<Rightarrow> vref \<Rightarrow> 'a mutation list \<Rightarrow> 'a state \<Rightarrow> bool" where
  "readable T this [] s = True"
| "readable T this (m # ms) s =
     (case arg_of m of
        None \<Rightarrow> False
      | Some a \<Rightarrow>
          arg_value s a \<noteq> None \<and>
          (case mutate T this m s of
             Ok _ s1 \<Rightarrow> readable T this ms s1
           | Throw _ _ \<Rightarrow> True
           | UB \<Rightarrow> True))"

fun appended :: "'a elem_type \<Rightarrow> vref \<Rightarrow> 'a mutation list \<Rightarrow> 'a state \<Rightarrow> 'a option list" where
  "appended T this [] s = []"
| "appended T this (m # ms) s =
     (case arg_of m of
        None \<Rightarrow> []
      | Some a \<Rightarrow>
          arg_value s a #
          (case mutate T this m s of
             Ok _ s1 \<Rightarrow> appended T this ms s1
           | Throw _ _ \<Rightarrow> []
           | UB \<Rightarrow> []))"

text \<open>
  Two vectors are separate when they are different objects that do not share a block
  (a vector without a block holds \<^verbatim>\<open>nullptr\<close>). A vector is unchanged between two states
  when it has the same size, the same capacity and the same elements; it is intact
  when moreover its members and its whole block are the same.
\<close>

definition separate :: "'a state \<Rightarrow> vref \<Rightarrow> vref \<Rightarrow> bool" where
  "separate s A B =
     (A \<noteq> B \<and> 0 < next_addr s \<and> blocks s nullptr = None \<and> buffer_of s A < next_addr s \<and>
      (buffer_of s A = buffer_of s B \<longrightarrow> buffer_of s A = nullptr))"

definition unchanged :: "vref \<Rightarrow> 'a state \<Rightarrow> 'a state \<Rightarrow> bool" where
  "unchanged A s s' =
     (Size s' A = Size s A \<and> Capacity s' A = Capacity s A \<and>
      (\<forall>i. Vector_index s' A i = Vector_index s A i))"

definition intact :: "vref \<Rightarrow> 'a state \<Rightarrow> 'a state \<Rightarrow> bool" where
  "intact A s s' =
     (vecs s' A = vecs s A \<and> blocks s' (buffer_of s A) = blocks s (buffer_of s A) \<and>
      (\<forall>i. mem s' (buffer_of s A, i) = mem s (buffer_of s A, i)))"

section \<open>Basic facts\<close>

lemmas state_simps = put_def set_data_def set_size_def in_block_def obj_def ptr_add_def ptr_sub_def
  Size_def Capacity_def Vector_begin_def Vector_end_def GetAddress_def

lemma to_int_small: "n < 2 ^ 31 \<Longrightarrow> to_int n = int n"
  unfolding to_int_def
  by (simp add: signed_of_nat signed_take_bit_int_eq_self)

lemma to_int_big: "to_int (2 ^ 31) < 0"
  by (simp add: to_int_def)

lemma wf_two_vectors: "wf_state two_vectors 0 \<and> wf_state two_vectors 1"
  by (simp add: wf_state_def wf_heap_def wf_vec_def two_vectors_def Let_def)

section \<open>The element operations and the loops, when nothing fails\<close>

lemma cpy_0 [simp]: "cpy f d i 0 m = m"
  by (rule ext) (auto simp: cpy_def)

lemma mvr_0 [simp]: "mvr T f d i 0 m = m"
  by (rule ext) (auto simp: mvr_def)

lemma shr_0 [simp]: "shr T a p 0 m = m"
  by (rule ext) (auto simp: shr_def)

lemma kill_0 [simp]: "kill p 0 m = m"
  by (rule ext) (auto simp: kill_def)

lemma shl_0 [simp]: "shl T a i 0 m = m"
  by (rule ext) (auto simp: shl_def)

lemma fallible_ok: "\<not> fails T (ticks s) \<Longrightarrow> fallible T e s = Ok () (s\<lparr>ticks := Suc (ticks s)\<rparr>)"
  by (simp add: fallible_def)

lemma fallible_throw: "fails T (ticks s) \<Longrightarrow> fallible T e s = Throw e (s\<lparr>ticks := Suc (ticks s)\<rparr>)"
  by (simp add: fallible_def)

lemma destroy_at_ok:
  "blocks s (fst p) = Some c \<Longrightarrow> snd p < c \<Longrightarrow> mem s p \<noteq> None \<Longrightarrow>
   destroy_at p s = Ok () (s\<lparr>mem := (mem s)(p := None)\<rparr>)"
  by (auto simp: destroy_at_def obj_def in_block_def put_def)

lemma destroy_n_ok:
  "blocks s a = Some c \<Longrightarrow> i + n \<le> c \<Longrightarrow> (\<forall>j. i \<le> j \<and> j < i + n \<longrightarrow> mem s (a, j) \<noteq> None) \<Longrightarrow>
   destroy_n (a, i) n s = Ok () (s\<lparr>mem := kill (a, i) n (mem s)\<rparr>)"
proof (induction n arbitrary: i s)
  case 0
  then show ?case by simp
next
  case (Suc n)
  have d: "destroy_at (a, i) s = Ok () (s\<lparr>mem := (mem s)((a, i) := None)\<rparr>)"
    using Suc.prems by (intro destroy_at_ok[where c = c]) auto
  let ?s1 = "s\<lparr>mem := (mem s)((a, i) := None)\<rparr>"
  have "destroy_n (a, Suc i) n ?s1 = Ok () (?s1\<lparr>mem := kill (a, Suc i) n (mem ?s1)\<rparr>)"
    using Suc.prems by (intro Suc.IH) auto
  moreover have "kill (a, Suc i) n ((mem s)((a, i) := None)) = kill (a, i) (Suc n) (mem s)"
    by (rule ext) (auto simp: kill_def)
  ultimately show ?case using d by (simp add: ptr_add_def)
qed

lemma move_assign_ok:
  "\<not> fails T (ticks s) \<Longrightarrow> blocks s (fst p) = Some c \<Longrightarrow> snd p < c \<Longrightarrow>
   blocks s (fst q) = Some c' \<Longrightarrow> snd q < c' \<Longrightarrow> mem s q = Some v \<Longrightarrow> mem s p \<noteq> None \<Longrightarrow>
   move_assign T p q s =
     Ok () (s\<lparr>mem := (mem s)(q := Some (moved_from T v), p := Some v), ticks := Suc (ticks s)\<rparr>)"
  by (auto simp: move_assign_def fallible_def obj_def in_block_def put_def)

lemma std_move_shift:
  "blocks s a = Some c \<Longrightarrow> i + n < c \<Longrightarrow> (\<forall>j. i \<le> j \<and> j \<le> i + n \<longrightarrow> mem s (a, j) \<noteq> None) \<Longrightarrow>
   (\<forall>k. k < n \<longrightarrow> \<not> fails T (ticks s + k)) \<Longrightarrow>
   std_move T (a, Suc i) n (a, i) s = Ok () (s\<lparr>mem := shl T a i n (mem s), ticks := ticks s + n\<rparr>)"
proof (induction n arbitrary: i s)
  case 0
  then show ?case by simp
next
  case (Suc n)
  from Suc.prems(3) have "mem s (a, Suc i) \<noteq> None" by simp
  then obtain v where v: "mem s (a, Suc i) = Some v" by auto
  let ?s1 = "s\<lparr>mem := (mem s)((a, Suc i) := Some (moved_from T v), (a, i) := Some v), ticks := Suc (ticks s)\<rparr>"
  have m: "move_assign T (a, i) (a, Suc i) s = Ok () ?s1"
    using Suc.prems v by (intro move_assign_ok[where c = c and c' = c]) auto
  have "std_move T (a, Suc (Suc i)) n (a, Suc i) ?s1 =
          Ok () (?s1\<lparr>mem := shl T a (Suc i) n (mem ?s1), ticks := ticks ?s1 + n\<rparr>)"
  proof (intro Suc.IH)
    show "\<forall>k<n. \<not> fails T (ticks ?s1 + k)" using Suc.prems(4) by (auto dest: spec[where x = "Suc _"])
  qed (use Suc.prems in auto)
  moreover have "shl T a (Suc i) n ((mem s)((a, Suc i) := Some (moved_from T v), (a, i) := Some v))
                 = shl T a i (Suc n) (mem s)"
    using v by (rule_tac ext) (auto simp: shl_def)
  ultimately show ?case using m by (simp add: ptr_add_def)
qed

lemma Erase_result:
  assumes w: "wf_vec s this" and p: "p < Size s this" "p < 2 ^ 31"
    and nf: "\<forall>k. k < Size s this - Suc p \<longrightarrow> \<not> fails T (ticks s + k)"
    and a: "a = raw_buffer (vec_data (vecs s this))" and n: "n = Size s this"
  shows "Erase T this (a, p) s =
           Ok (a, p) (s\<lparr>mem := (shl T a p (n - Suc p) (mem s))((a, n - 1) := None),
                        vecs := (vecs s)(this := (vecs s this)\<lparr>vec_size := n - 1\<rparr>),
                        ticks := ticks s + (n - Suc p)\<rparr>)"
proof -
  let ?c = "raw_capacity (vec_data (vecs s this))"
  from w p n have c: "n \<le> ?c" "blocks s a = Some ?c"
    and live: "\<forall>i. i < n \<longrightarrow> mem s (a, i) \<noteq> None"
    by (auto simp: wf_vec_def Let_def Size_def a split: if_splits)
  let ?s1 = "s\<lparr>mem := shl T a p (n - Suc p) (mem s), ticks := ticks s + (n - Suc p)\<rparr>"
  have mv: "std_move T (a, Suc p) (n - Suc p) (a, p) s = Ok () ?s1"
    using c live p nf n by (intro std_move_shift[where c = ?c]) auto
  let ?s2 = "set_size this (n - 1) ?s1"
  have last: "mem ?s2 (a, n - 1) \<noteq> None"
    using live p n by (auto simp: set_size_def shl_def)
  have d: "destroy_at (a, n - 1) ?s2 = Ok () (?s2\<lparr>mem := (mem ?s2)((a, n - 1) := None)\<rparr>)"
    using c p n last by (intro destroy_at_ok[where c = ?c]) (auto simp: set_size_def)
  show ?thesis
    using p n mv d a
    by (simp add: Erase_def to_int_small Let_def Size_def Vector_begin_def Vector_end_def
        GetAddress_def ptr_add_def set_size_def)
qed

lemma construct_ok:
  "\<not> fails T (ticks s) \<Longrightarrow> arg_value s a = Some v \<Longrightarrow> blocks s (fst p) = Some c \<Longrightarrow> snd p < c \<Longrightarrow>
   construct T p a s = Ok () (s\<lparr>mem := (mem s)(p := Some v), ticks := Suc (ticks s)\<rparr>)"
  by (cases a) (auto simp: construct_def fallible_def obj_def in_block_def put_def split: if_splits)

lemma copy_construct_ok:
  "\<not> fails T (ticks s) \<Longrightarrow> blocks s (fst q) = Some c' \<Longrightarrow> snd q < c' \<Longrightarrow> mem s q = Some v \<Longrightarrow>
   blocks s (fst p) = Some c \<Longrightarrow> snd p < c \<Longrightarrow>
   copy_construct T p q s = Ok () (s\<lparr>mem := (mem s)(p := Some v), ticks := Suc (ticks s)\<rparr>)"
  unfolding copy_construct_def
  by (intro construct_ok[where c = c]) (auto simp: obj_def in_block_def)

lemma move_construct_ok:
  "nothrow_move_constructible T \<or> \<not> fails T (ticks s) \<Longrightarrow>
   blocks s (fst q) = Some c' \<Longrightarrow> snd q < c' \<Longrightarrow> mem s q = Some v \<Longrightarrow>
   blocks s (fst p) = Some c \<Longrightarrow> snd p < c \<Longrightarrow>
   move_construct T p q s =
     Ok () (s\<lparr>mem := (mem s)(q := Some (moved_from T v), p := Some v),
              ticks := ticks s + (if nothrow_move_constructible T then 0 else 1)\<rparr>)"
  by (auto simp: move_construct_def fallible_def obj_def in_block_def put_def)

lemma copy_assign_ok:
  "\<not> fails T (ticks s) \<Longrightarrow> blocks s (fst p) = Some c \<Longrightarrow> snd p < c \<Longrightarrow>
   blocks s (fst q) = Some c' \<Longrightarrow> snd q < c' \<Longrightarrow> mem s q = Some v \<Longrightarrow> mem s p \<noteq> None \<Longrightarrow>
   copy_assign T p q s = Ok () (s\<lparr>mem := (mem s)(p := Some v), ticks := Suc (ticks s)\<rparr>)"
  by (auto simp: copy_assign_def fallible_def obj_def in_block_def put_def)

lemma assign_temporary_ok:
  "\<not> fails T (ticks s) \<Longrightarrow> \<not> fails T (Suc (ticks s)) \<Longrightarrow> blocks s (fst p) = Some c \<Longrightarrow> snd p < c \<Longrightarrow>
   mem s p \<noteq> None \<Longrightarrow>
   assign_temporary T p (ByValue v) s =
     Ok () (s\<lparr>mem := (mem s)(p := Some v), ticks := Suc (Suc (ticks s))\<rparr>)"
  by (auto simp: assign_temporary_def fallible_def obj_def in_block_def put_def)

lemma uninitialized_copy_loop_ok:
  "fst f \<noteq> fst d \<Longrightarrow> blocks s (fst f) = Some cf \<Longrightarrow> snd f + i + n \<le> cf \<Longrightarrow>
   blocks s (fst d) = Some cd \<Longrightarrow> snd d + i + n \<le> cd \<Longrightarrow>
   (\<forall>k. i \<le> k \<and> k < i + n \<longrightarrow> mem s (fst f, snd f + k) \<noteq> None) \<Longrightarrow>
   (\<forall>k. k < n \<longrightarrow> \<not> fails T (ticks s + k)) \<Longrightarrow>
   uninitialized_copy_loop T f d i n s =
     Ok () (s\<lparr>mem := cpy f d i n (mem s), ticks := ticks s + n\<rparr>)"
proof (induction n arbitrary: i s)
  case 0
  then show ?case by simp
next
  case (Suc n)
  from Suc.prems(6) have "mem s (fst f, snd f + i) \<noteq> None" by simp
  then obtain v where v: "mem s (fst f, snd f + i) = Some v" by auto
  let ?s1 = "s\<lparr>mem := (mem s)((fst d, snd d + i) := Some v), ticks := Suc (ticks s)\<rparr>"
  have c: "copy_construct T (ptr_add d i) (ptr_add f i) s = Ok () ?s1"
    unfolding ptr_add_def using Suc.prems v
    by (intro copy_construct_ok[where c = cd and c' = cf]) auto
  have "uninitialized_copy_loop T f d (Suc i) n ?s1 =
          Ok () (?s1\<lparr>mem := cpy f d (Suc i) n (mem ?s1), ticks := ticks ?s1 + n\<rparr>)"
  proof (intro Suc.IH)
    show "\<forall>k<n. \<not> fails T (ticks ?s1 + k)" using Suc.prems(7) by (auto dest: spec[where x = "Suc _"])
  qed (use Suc.prems in auto)
  moreover have "cpy f d (Suc i) n ((mem s)((fst d, snd d + i) := Some v)) = cpy f d i (Suc n) (mem s)"
    using v Suc.prems(1) by (rule_tac ext) (auto simp: cpy_def)
  ultimately show ?case using c by simp
qed

lemma uninitialized_move_loop_ok:
  "fst f \<noteq> fst d \<Longrightarrow> blocks s (fst f) = Some cf \<Longrightarrow> snd f + i + n \<le> cf \<Longrightarrow>
   blocks s (fst d) = Some cd \<Longrightarrow> snd d + i + n \<le> cd \<Longrightarrow>
   (\<forall>k. i \<le> k \<and> k < i + n \<longrightarrow> mem s (fst f, snd f + k) \<noteq> None) \<Longrightarrow>
   nothrow_move_constructible T \<or> (\<forall>k. k < n \<longrightarrow> \<not> fails T (ticks s + k)) \<Longrightarrow>
   uninitialized_move_loop T f d i n s =
     Ok () (s\<lparr>mem := mvr T f d i n (mem s),
              ticks := ticks s + (if nothrow_move_constructible T then 0 else n)\<rparr>)"
proof (induction n arbitrary: i s)
  case 0
  then show ?case by simp
next
  case (Suc n)
  from Suc.prems(6) have "mem s (fst f, snd f + i) \<noteq> None" by simp
  then obtain v where v: "mem s (fst f, snd f + i) = Some v" by auto
  let ?t1 = "ticks s + (if nothrow_move_constructible T then 0 else 1)"
  let ?s1 = "s\<lparr>mem := (mem s)((fst f, snd f + i) := Some (moved_from T v), (fst d, snd d + i) := Some v),
               ticks := ?t1\<rparr>"
  have c: "move_construct T (ptr_add d i) (ptr_add f i) s = Ok () ?s1"
    unfolding ptr_add_def using Suc.prems v
    by (intro move_construct_ok[where c = cd and c' = cf]) auto
  have "uninitialized_move_loop T f d (Suc i) n ?s1 =
          Ok () (?s1\<lparr>mem := mvr T f d (Suc i) n (mem ?s1),
                      ticks := ticks ?s1 + (if nothrow_move_constructible T then 0 else n)\<rparr>)"
  proof (intro Suc.IH)
    show "nothrow_move_constructible T \<or> (\<forall>k<n. \<not> fails T (ticks ?s1 + k))"
      using Suc.prems(7) by (auto dest: spec[where x = "Suc _"])
  qed (use Suc.prems in auto)
  moreover have "mvr T f d (Suc i) n
                   ((mem s)((fst f, snd f + i) := Some (moved_from T v), (fst d, snd d + i) := Some v))
                 = mvr T f d i (Suc n) (mem s)"
    using v Suc.prems(1) by (rule_tac ext) (auto simp: mvr_def)
  ultimately show ?case using c by simp
qed

lemma std_copy_ok:
  "fst f \<noteq> fst d \<Longrightarrow> blocks s (fst f) = Some cf \<Longrightarrow> snd f + n \<le> cf \<Longrightarrow>
   blocks s (fst d) = Some cd \<Longrightarrow> snd d + n \<le> cd \<Longrightarrow>
   (\<forall>k. k < n \<longrightarrow> mem s (fst f, snd f + k) \<noteq> None \<and> mem s (fst d, snd d + k) \<noteq> None) \<Longrightarrow>
   (\<forall>k. k < n \<longrightarrow> \<not> fails T (ticks s + k)) \<Longrightarrow>
   std_copy T f n d s = Ok () (s\<lparr>mem := cpy f d 0 n (mem s), ticks := ticks s + n\<rparr>)"
proof (induction n arbitrary: f d s)
  case 0
  then show ?case by simp
next
  case (Suc n)
  from Suc.prems(6) have fd: "mem s (fst f, snd f + 0) \<noteq> None \<and> mem s (fst d, snd d + 0) \<noteq> None"
    by blast
  then obtain v where v: "mem s f = Some v" by auto
  let ?s1 = "s\<lparr>mem := (mem s)(d := Some v), ticks := Suc (ticks s)\<rparr>"
  have dl: "mem s d \<noteq> None" using fd by simp
  have c: "copy_assign T d f s = Ok () ?s1"
    using Suc.prems v dl by (intro copy_assign_ok[where c = cd and c' = cf]) auto
  have "std_copy T (ptr_add f 1) n (ptr_add d 1) ?s1 =
          Ok () (?s1\<lparr>mem := cpy (ptr_add f 1) (ptr_add d 1) 0 n (mem ?s1), ticks := ticks ?s1 + n\<rparr>)"
  proof (intro Suc.IH)
    show "\<forall>k<n. \<not> fails T (ticks ?s1 + k)" using Suc.prems(7) by (auto dest: spec[where x = "Suc _"])
    show "\<forall>k<n. mem ?s1 (fst (ptr_add f 1), snd (ptr_add f 1) + k) \<noteq> None \<and>
                mem ?s1 (fst (ptr_add d 1), snd (ptr_add d 1) + k) \<noteq> None"
      using Suc.prems(6) Suc.prems(1) by (auto simp: ptr_add_def dest: spec[where x = "Suc _"])
  qed (use Suc.prems in \<open>auto simp: ptr_add_def\<close>)
  moreover have "cpy (ptr_add f 1) (ptr_add d 1) 0 n ((mem s)(d := Some v)) = cpy f d 0 (Suc n) (mem s)"
  proof (rule ext)
    fix q :: ptr
    have ar: "Suc (snd d) \<le> snd q \<Longrightarrow> Suc (snd f) + (snd q - Suc (snd d)) = snd f + (snd q - snd d)"
      by arith
    have nd: "\<And>x. (fst f, x) \<noteq> d" using Suc.prems(1) by auto
    have "snd q = snd d \<Longrightarrow> fst q = fst d \<Longrightarrow> q = d" by (simp add: prod_eq_iff)
    then show "cpy (ptr_add f 1) (ptr_add d 1) 0 n ((mem s)(d := Some v)) q = cpy f d 0 (Suc n) (mem s) q"
      using v Suc.prems(1) ar nd
      by (cases "q = d") (auto simp: cpy_def ptr_add_def simp del: add_Suc)
  qed
  ultimately show ?case using c by simp
qed

lemma move_backward_ok:
  "blocks s a = Some c \<Longrightarrow> p + n < c \<Longrightarrow> (\<forall>j. p \<le> j \<and> j \<le> p + n \<longrightarrow> mem s (a, j) \<noteq> None) \<Longrightarrow>
   (\<forall>k. k < n \<longrightarrow> \<not> fails T (ticks s + k)) \<Longrightarrow>
   move_backward T (a, p) n (a, Suc (p + n)) s =
     Ok () (s\<lparr>mem := shr T a p n (mem s), ticks := ticks s + n\<rparr>)"
proof (induction n arbitrary: s)
  case 0
  then show ?case by simp
next
  case (Suc n)
  from Suc.prems(3) have "mem s (a, p + n) \<noteq> None" by simp
  then obtain v where v: "mem s (a, p + n) = Some v" by auto
  let ?s1 = "s\<lparr>mem := (mem s)((a, p + n) := Some (moved_from T v), (a, Suc (p + n)) := Some v),
               ticks := Suc (ticks s)\<rparr>"
  have m: "move_assign T (a, Suc (p + n)) (a, p + n) s = Ok () ?s1"
    using Suc.prems v by (intro move_assign_ok[where c = c and c' = c]) auto
  have "move_backward T (a, p) n (a, Suc (p + n)) ?s1 =
          Ok () (?s1\<lparr>mem := shr T a p n (mem ?s1), ticks := ticks ?s1 + n\<rparr>)"
  proof (intro Suc.IH)
    show "\<forall>k<n. \<not> fails T (ticks ?s1 + k)" using Suc.prems(4) by (auto dest: spec[where x = "Suc _"])
  qed (use Suc.prems in auto)
  moreover have "shr T a p n ((mem s)((a, p + n) := Some (moved_from T v), (a, Suc (p + n)) := Some v))
                 = shr T a p (Suc n) (mem s)"
    using v by (rule_tac ext) (auto simp: shr_def)
  ultimately show ?case using m by (simp add: ptr_add_def ptr_sub_def)
qed

section \<open>Move construction and move assignment\<close>

text \<open>
  C6, as amended. Between distinct vectors, move assignment and move construction hand
  the source's buffer and size to the destination: the destination then holds the
  source's former elements in their order, and the source is left with size 0,
  capacity 0 and \<^verbatim>\<open>nullptr\<close> (not with the capacity it held before). Both are total
  functions of the state (they cannot fail), and they leave every slot, every block and
  the count of fallible events as they were: no element is constructed or destroyed.
\<close>

theorem move_transfers:
  assumes "this \<noteq> other"
  shows "(let s' = Vector_move_assign this other s in
           vecs s' this = vecs s other \<and> vecs s' other = Vector_default \<and>
           (\<forall>i. Vector_index s' this i = Vector_index s other i) \<and>
           Size s' other = 0 \<and> Capacity s' other = 0 \<and>
           mem s' = mem s \<and> blocks s' = blocks s \<and> next_addr s' = next_addr s \<and>
           ticks s' = ticks s) \<and>
         (let s' = Vector_move_ctor this other s in
           vecs s' this = vecs s other \<and> vecs s' other = Vector_default \<and>
           (\<forall>i. Vector_index s' this i = Vector_index s other i) \<and>
           Size s' other = 0 \<and> Capacity s' other = 0 \<and>
           mem s' = mem s \<and> blocks s' = blocks s \<and> next_addr s' = next_addr s \<and>
           ticks s' = ticks s)"
  using assms
  by (simp add: Vector_move_assign_def Vector_move_ctor_def Vector_ctor_def Swap_def Let_def
      Vector_index_def Vector_default_def RawMemory_default_def state_simps)

theorem move_transfers_witness:
  "(0::vref) \<noteq> 1 \<and> Vector_index (Vector_move_assign 0 1 two_vectors) 0 1 = Some 3 \<and>
   Vector_index (Vector_move_ctor 2 1 two_vectors) 2 1 = Some 3 \<and>
   vecs (Vector_move_assign 0 1 two_vectors) 1 = Vector_default"
  using move_transfers [of 0 1 two_vectors] move_transfers [of 2 1 two_vectors]
  by (simp add: Let_def two_vectors_def Vector_index_def state_simps)

text \<open>
  C6 as stated fails: the source, of capacity 2, has capacity 0 after either move, which
  is neither the capacity it held before nor the one the destination held.
\<close>

theorem move_source_capacity_counterexample:
  "Capacity two_vectors 1 = 2 \<and> Capacity two_vectors 0 = 1 \<and>
   Capacity (Vector_move_assign 0 1 two_vectors) 1 = 0 \<and>
   Capacity (Vector_move_ctor 2 1 two_vectors) 1 = 0"
  by (simp add: Vector_move_assign_def Vector_move_ctor_def Vector_ctor_def Swap_def Let_def
      Vector_default_def RawMemory_default_def two_vectors_def state_simps)

text \<open>
  C7 at the failing input: vector 0 holds \<open>[1]\<close> and is move-assigned from vector 1.
  Afterwards the block that vector 0 owned is still allocated, the element 1 is still a
  live object in it, and no vector refers to that block: the element was not destroyed
  and the buffer was not released.
\<close>

theorem move_assign_leaks_old_buffer:
  "Vector_index two_vectors 0 0 = Some 1 \<and>
   (let s' = Vector_move_assign 0 1 two_vectors in
      blocks s' 1 = Some 1 \<and> obj s' (1, 0) = Some 1 \<and>
      (\<forall>r. raw_buffer (vec_data (vecs s' r)) \<noteq> 1))"
  by (simp add: Vector_move_assign_def Let_def Vector_index_def
      Vector_default_def RawMemory_default_def two_vectors_def state_simps)

section \<open>Copy assignment\<close>

text \<open>
  C9: copy-assigning a vector to itself returns at once with the state unchanged:
  every slot, every block, every vector and the count of fallible events are as before,
  so no element was copied, constructed or destroyed.
\<close>

theorem self_copy_assign: "Vector_copy_assign T a a s = Ok () s"
  by (simp add: Vector_copy_assign_def)

section \<open>Appending an element\<close>

lemma calm_window: "calm T s \<Longrightarrow> \<forall>k. k < n \<longrightarrow> \<not> fails T (ticks s + k)"
  by (simp add: calm_def)

lemma calm_later: "calm T s \<Longrightarrow> ticks s \<le> ticks s' \<Longrightarrow> calm T s'"
  by (simp add: calm_def)

lemma transferred_0: "transferred f 0 d m m"
  by (simp add: transferred_def)

lemma uninitialized_copy_n_ok:
  assumes "calm T s"
    and "n = 0 \<or> (fst f \<noteq> fst d \<and> blocks s (fst f) = Some cf \<and> snd f + n \<le> cf \<and>
                 blocks s (fst d) = Some cd \<and> snd d + n \<le> cd \<and>
                 (\<forall>k. k < n \<longrightarrow> mem s (fst f, snd f + k) \<noteq> None))"
  shows "\<exists>M t. uninitialized_copy_n T f n d s = Ok () (s\<lparr>mem := M, ticks := t\<rparr>) \<and>
               ticks s \<le> t \<and> transferred f n d (mem s) M"
proof (cases "n = 0")
  case True
  then show ?thesis
    by (intro exI[where x = "mem s"] exI[where x = "ticks s"])
       (simp add: uninitialized_copy_n_def transferred_0)
next
  case False
  with assms(2) have pre: "fst f \<noteq> fst d" "blocks s (fst f) = Some cf" "snd f + n \<le> cf"
    "blocks s (fst d) = Some cd" "snd d + n \<le> cd" "\<forall>k. k < n \<longrightarrow> mem s (fst f, snd f + k) \<noteq> None"
    by auto
  have "uninitialized_copy_n T f n d s = Ok () (s\<lparr>mem := cpy f d 0 n (mem s), ticks := ticks s + n\<rparr>)"
    unfolding uninitialized_copy_n_def using pre calm_window[OF assms(1)]
    by (intro uninitialized_copy_loop_ok[where cf = cf and cd = cd]) auto
  moreover have "transferred f n d (mem s) (cpy f d 0 n (mem s))"
    using pre by (auto simp: transferred_def cpy_def)
  ultimately show ?thesis by (intro exI conjI) (assumption, simp, assumption)
qed

lemma uninitialized_move_n_ok:
  assumes "calm T s"
    and "n = 0 \<or> (fst f \<noteq> fst d \<and> blocks s (fst f) = Some cf \<and> snd f + n \<le> cf \<and>
                 blocks s (fst d) = Some cd \<and> snd d + n \<le> cd \<and>
                 (\<forall>k. k < n \<longrightarrow> mem s (fst f, snd f + k) \<noteq> None))"
  shows "\<exists>M t. uninitialized_move_n T f n d s = Ok () (s\<lparr>mem := M, ticks := t\<rparr>) \<and>
               ticks s \<le> t \<and> transferred f n d (mem s) M"
proof (cases "n = 0")
  case True
  then show ?thesis
    by (intro exI[where x = "mem s"] exI[where x = "ticks s"])
       (simp add: uninitialized_move_n_def transferred_0)
next
  case False
  with assms(2) have pre: "fst f \<noteq> fst d" "blocks s (fst f) = Some cf" "snd f + n \<le> cf"
    "blocks s (fst d) = Some cd" "snd d + n \<le> cd" "\<forall>k. k < n \<longrightarrow> mem s (fst f, snd f + k) \<noteq> None"
    by auto
  have "uninitialized_move_n T f n d s =
          Ok () (s\<lparr>mem := mvr T f d 0 n (mem s),
                   ticks := ticks s + (if nothrow_move_constructible T then 0 else n)\<rparr>)"
    unfolding uninitialized_move_n_def using pre calm_window[OF assms(1)]
    by (intro uninitialized_move_loop_ok[where cf = cf and cd = cd]) auto
  moreover have "transferred f n d (mem s) (mvr T f d 0 n (mem s))"
    using pre by (auto simp: transferred_def mvr_def)
  ultimately show ?thesis by (intro exI conjI) (assumption, simp, assumption)
qed

lemma CopyOrMove_ok:
  assumes "calm T s"
    and "n = Size s this" and "f = Vector_begin s this"
    and "n = 0 \<or> (fst f \<noteq> b \<and> blocks s (fst f) = Some cf \<and> n \<le> cf \<and>
                 blocks s b = Some cd \<and> n \<le> cd \<and>
                 (\<forall>k. k < n \<longrightarrow> mem s (fst f, k) \<noteq> None))"
  shows "\<exists>M t. CopyOrMove T this \<lparr>raw_buffer = b, raw_capacity = c'\<rparr> s = Ok () (s\<lparr>mem := M, ticks := t\<rparr>) \<and>
               ticks s \<le> t \<and> transferred f n (b, 0) (mem s) M"
proof -
  have z: "snd f = 0" using assms(3) by (simp add: Vector_begin_def GetAddress_def)
  show ?thesis
  proof (cases "nothrow_move_constructible T \<or> \<not> copy_constructible T")
    case True
    then show ?thesis
      using uninitialized_move_n_ok[OF assms(1), of n f "(b, 0)" cf cd] assms(2-4) z
      by (simp add: CopyOrMove_def GetAddress_def)
  next
    case False
    then show ?thesis
      using uninitialized_copy_n_ok[OF assms(1), of n f "(b, 0)" cf cd] assms(2-4) z
      by (simp add: CopyOrMove_def GetAddress_def)
  qed
qed

lemma destroy_n_ok':
  "n = 0 \<or> (blocks s a = Some c \<and> i + n \<le> c \<and> (\<forall>j. i \<le> j \<and> j < i + n \<longrightarrow> mem s (a, j) \<noteq> None)) \<Longrightarrow>
   destroy_n (a, i) n s = Ok () (s\<lparr>mem := kill (a, i) n (mem s)\<rparr>)"
  by (cases "n = 0") (auto simp: destroy_n_ok)

lemma slots_fits: "fits T n \<Longrightarrow> slots T n = n"
  by (simp add: fits_def slots_def)

lemma fits_le: "fits T n \<Longrightarrow> m \<le> n \<Longrightarrow> fits T m"
  unfolding fits_def
  by (metis le_less_trans mult_le_mono1)

lemma Allocate_ok:
  "\<not> fails T (ticks s) \<Longrightarrow> n \<noteq> 0 \<Longrightarrow> fits T n \<Longrightarrow>
   Allocate T n s = Ok (next_addr s) (s\<lparr>blocks := (blocks s)(next_addr s \<mapsto> n),
                                       next_addr := Suc (next_addr s), ticks := Suc (ticks s)\<rparr>)"
  by (simp add: Allocate_def fallible_def slots_fits)

lemma arg_value_frame:
  "arg_value s a = Some v \<Longrightarrow> blocks s b = None \<Longrightarrow>
   arg_value (s\<lparr>blocks := (blocks s)(b \<mapsto> n), next_addr := x, ticks := t\<rparr>) a = Some v"
  by (cases a) (auto simp: obj_def in_block_def split: if_splits option.splits)

lemma Vector_update_all:
  "(v::Vector)\<lparr>vec_data := d, vec_size := n\<rparr> = \<lparr>vec_data = d, vec_size = n\<rparr>"
  by (cases v) simp

lemma Deallocate_ok:
  "(a = nullptr \<and> blocks s nullptr = None) \<or> (a \<noteq> nullptr \<and> blocks s a \<noteq> None) \<Longrightarrow>
   Deallocate a s = Ok () (s\<lparr>blocks := (blocks s)(a := None)\<rparr>)"
  by (auto simp: Deallocate_def fun_upd_idem)

lemma wf_vecD:
  assumes "wf_vec s this"
    and "a = raw_buffer (vec_data (vecs s this))" and "c = raw_capacity (vec_data (vecs s this))"
    and "n = vec_size (vecs s this)"
  shows "n \<le> c" and "c = 0 \<Longrightarrow> a = nullptr" and "c \<noteq> 0 \<Longrightarrow> blocks s a = Some c \<and> a < next_addr s"
    and "\<And>i. i < n \<Longrightarrow> mem s (a, i) \<noteq> None" and "\<And>i. n \<le> i \<Longrightarrow> mem s (a, i) = None"
  using assms by (auto simp: wf_vec_def Let_def split: if_splits)

lemma EmplaceBack_in_place:
  assumes w: "wf_vec s this" and nf: "\<not> fails T (ticks s)" and v: "arg_value s a = Some v"
    and lt: "Size s this < Capacity s this"
  shows "EmplaceBack T this a s =
           Ok (Vector_end s this)
              (s\<lparr>mem := (mem s)(Vector_end s this := Some v),
                 vecs := (vecs s)(this := (vecs s this)\<lparr>vec_size := Suc (Size s this)\<rparr>),
                 ticks := Suc (ticks s)\<rparr>)"
proof -
  let ?a = "raw_buffer (vec_data (vecs s this))"
  let ?c = "raw_capacity (vec_data (vecs s this))"
  let ?n = "vec_size (vecs s this)"
  have b: "blocks s ?a = Some ?c" using wf_vecD(3)[OF w refl refl refl] lt
    by (simp add: Size_def Capacity_def)
  have "construct T (?a, ?n) a s = Ok () (s\<lparr>mem := (mem s)((?a, ?n) := Some v), ticks := Suc (ticks s)\<rparr>)"
    using nf v b lt by (intro construct_ok[where c = ?c]) (auto simp: Size_def Capacity_def)
  then show ?thesis using lt
    by (simp add: EmplaceBack_def Vector_end_def GetAddress_def ptr_add_def Size_def Capacity_def
        set_size_def)
qed

lemma EmplaceBack_grow:
  assumes wh: "wf_heap s" and w: "wf_vec s this" and cm: "calm T s" and v: "arg_value s a = Some v"
    and eq: "Size s this = Capacity s this"
    and a: "ab = raw_buffer (vec_data (vecs s this))" and n: "n = Size s this"
    and c': "c' = (if n = 0 then 1 else n * 2)" and b: "b = next_addr s" and ft: "fits T c'"
  shows "\<exists>M t. EmplaceBack T this a s =
           Ok (b, n)
              (s\<lparr>blocks := ((blocks s)(b \<mapsto> c'))(ab := None), mem := M, next_addr := Suc b,
                 vecs := (vecs s)(this := \<lparr>vec_data = \<lparr>raw_buffer = b, raw_capacity = c'\<rparr>,
                                           vec_size = Suc n\<rparr>),
                 ticks := t\<rparr>) \<and>
           ticks s \<le> t \<and> (\<forall>i. i < n \<longrightarrow> M (b, i) = mem s (ab, i)) \<and> M (b, n) = Some v \<and>
           (\<forall>i. n < i \<longrightarrow> M (b, i) = None) \<and> (\<forall>i. M (ab, i) = None) \<and>
           (\<forall>q. fst q \<noteq> ab \<and> fst q \<noteq> b \<longrightarrow> M q = mem s q)"
proof -
  have cap: "raw_capacity (vec_data (vecs s this)) = n" using eq n by (simp add: Size_def Capacity_def)
  have sz: "vec_size (vecs s this) = n" using n by (simp add: Size_def)
  note W = wf_vecD[OF w a cap[symmetric] sz[symmetric]]
  have fresh: "blocks s b = None" "\<And>i. mem s (b, i) = None" "0 < b" "blocks s nullptr = None"
    using wh b by (auto simp: wf_heap_def)
  have ab: "ab \<noteq> b" using W(2) W(3) fresh by (cases "n = 0") auto
  have c'0: "c' \<noteq> 0" "n < c'" using c' by auto
  have nf: "\<not> fails T (ticks s)" "\<not> fails T (Suc (ticks s))" using cm by (auto simp: calm_def)
  let ?s1 = "s\<lparr>blocks := (blocks s)(b \<mapsto> c'), next_addr := Suc b, ticks := Suc (ticks s)\<rparr>"
  have al: "RawMemory_sized T c' s = Ok \<lparr>raw_buffer = b, raw_capacity = c'\<rparr> ?s1"
    using nf c'0 b ft by (simp add: RawMemory_sized_def Allocate_ok)
  let ?s2 = "?s1\<lparr>mem := (mem s)((b, n) := Some v), ticks := Suc (Suc (ticks s))\<rparr>"
  have co: "construct T (b, n) a ?s1 = Ok () ?s2"
    using nf c'0 arg_value_frame[OF v fresh(1), where n = c' and x = "Suc b" and t = "Suc (ticks s)"]
    by (simp add: construct_ok[where c = c' and v = v])
  have cm2: "calm T ?s2" using cm by (auto intro: calm_later)
  have "\<exists>M t. CopyOrMove T this \<lparr>raw_buffer = b, raw_capacity = c'\<rparr> ?s2 = Ok () (?s2\<lparr>mem := M, ticks := t\<rparr>) \<and>
               ticks ?s2 \<le> t \<and> transferred (ab, 0) n (b, 0) (mem ?s2) M"
  proof (rule CopyOrMove_ok[OF cm2, where cf = n and cd = c'])
    show "n = Size ?s2 this" using sz by (simp add: Size_def)
    show "(ab, 0) = Vector_begin ?s2 this" using a by (simp add: Vector_begin_def GetAddress_def)
    show "n = 0 \<or> (fst (ab, 0::nat) \<noteq> b \<and> blocks ?s2 (fst (ab, 0::nat)) = Some n \<and> n \<le> n \<and>
                 blocks ?s2 b = Some c' \<and> n \<le> c' \<and>
                 (\<forall>k. k < n \<longrightarrow> mem ?s2 (fst (ab, 0::nat), k) \<noteq> None))"
      using ab W c'0 by (cases "n = 0") auto
  qed
  then obtain M t where cp: "CopyOrMove T this \<lparr>raw_buffer = b, raw_capacity = c'\<rparr> ?s2 = Ok () (?s2\<lparr>mem := M, ticks := t\<rparr>)"
    and t: "ticks ?s2 \<le> t" and tr: "transferred (ab, 0) n (b, 0) (mem ?s2) M"
    by blast
  let ?s3 = "?s2\<lparr>mem := M, ticks := t\<rparr>"
  have M1: "M (b, i) = mem s (ab, i)" if "i < n" for i
    using tr that ab by (simp add: transferred_def)
  have M2: "M (ab, i) \<noteq> None" if "i < n" for i
    using tr that by (simp add: transferred_def)
  have M3: "M q = ((mem s)((b, n) := Some v)) q"
    if "\<not> (fst q = b \<and> snd q < n)" "\<not> (fst q = ab \<and> snd q < n)" for q
  proof -
    from tr have "\<forall>q. \<not> (fst q = b \<and> snd q < n) \<and> \<not> (fst q = ab \<and> snd q < n)
                   \<longrightarrow> M q = ((mem s)((b, n) := Some v)) q"
      by (simp add: transferred_def)
    with that show ?thesis by blast
  qed
  let ?s4 = "?s3\<lparr>mem := kill (ab, 0) n M\<rparr>"
  have de: "destroy_n (ab, 0) n ?s3 = Ok () ?s4"
    using W(3) M2 ab by (intro destroy_n_ok'[where c = n, THEN trans]) (auto)
  let ?s5 = "set_data this \<lparr>raw_buffer = b, raw_capacity = c'\<rparr> ?s4"
  have dl: "Deallocate ab ?s5 = Ok () (?s5\<lparr>blocks := (blocks ?s5)(ab := None)\<rparr>)"
    using W(2) W(3) fresh ab by (intro Deallocate_ok) (cases "n = 0"; auto simp: set_data_def)
  have old: "vec_data (vecs ?s4 this) = \<lparr>raw_buffer = ab, raw_capacity = n\<rparr>"
    using a cap by simp
  have p1: "ptr_add (GetAddress \<lparr>raw_buffer = b, raw_capacity = c'\<rparr>) (Size ?s1 this) = (b, n)"
    using sz by (simp add: GetAddress_def ptr_add_def Size_def)
  have p3: "Vector_begin ?s3 this = (ab, 0)" "Size ?s3 this = n"
    using sz a by (simp_all add: GetAddress_def Vector_begin_def Size_def)
  have p5: "RawMemory_destroy \<lparr>raw_buffer = ab, raw_capacity = n\<rparr> ?s5 =
              Ok () (?s5\<lparr>blocks := (blocks ?s5)(ab := None)\<rparr>)"
    using dl by (simp add: RawMemory_destroy_def)
  have cexp: "(if Capacity s this = 0 then 1 else Capacity s this * 2) = c'"
    using c' cap by (simp add: Capacity_def)
  have wn: "with_new_data T c' (\<lambda>new_data s1.
            and_then (construct T (ptr_add (GetAddress new_data) (Size s1 this)) a s1) (\<lambda>_ s2.
            and_then (CopyOrMove T this new_data s2) (\<lambda>_ s3.
            and_then (destroy_n (Vector_begin s3 this) (Size s3 this) s3) (\<lambda>_ s4.
            Ok (vec_data (vecs s4 this)) (set_data this new_data s4))))) s
          = Ok () (?s5\<lparr>blocks := (blocks ?s5)(ab := None)\<rparr>)"
    unfolding with_new_data_def
    by (simp only: al and_then.simps p1 co cp p3 de old result.case p5)
  have p6: "Vector_end (?s5\<lparr>blocks := (blocks ?s5)(ab := None)\<rparr>) this = (b, n)"
    "Suc (Size (?s5\<lparr>blocks := (blocks ?s5)(ab := None)\<rparr>) this) = Suc n"
    using sz by (simp_all add: Vector_end_def GetAddress_def ptr_add_def Size_def set_data_def)
  have res: "EmplaceBack T this a s =
          Ok (b, n) (set_size this (Suc n) (?s5\<lparr>blocks := (blocks ?s5)(ab := None)\<rparr>))"
    unfolding EmplaceBack_def
    by (simp only: eq simp_thms if_True cexp wn and_then.simps p6)
  have K1: "\<And>i. i < n \<Longrightarrow> kill (ab, 0) n M (b, i) = mem s (ab, i)"
    using M1 ab by (simp add: kill_def)
  have K2: "kill (ab, 0) n M (b, n) = Some v" using M3[of "(b, n)"] ab by (simp add: kill_def)
  have K3: "\<And>i. n < i \<Longrightarrow> kill (ab, 0) n M (b, i) = None"
    using M3 ab fresh(2) by (simp add: kill_def)
  have K4: "\<And>i. kill (ab, 0) n M (ab, i) = None"
    using M3 W(5) ab by (simp add: kill_def)
  have K5: "\<And>q. fst q \<noteq> ab \<Longrightarrow> fst q \<noteq> b \<Longrightarrow> kill (ab, 0) n M q = mem s q"
    using M3 by (auto simp: kill_def)
  show ?thesis
    apply (rule exI[where x = "kill (ab, 0) n M"], rule exI[where x = t])
    using res t K1 K2 K3 K4 K5 by (simp add: set_data_def set_size_def Vector_update_all)
qed

lemma Vector_index_wf:
  "wf_vec s this \<Longrightarrow> i < Size s this \<Longrightarrow>
   Vector_index s this i = mem s (raw_buffer (vec_data (vecs s this)), i) \<and> Vector_index s this i \<noteq> None"
  using wf_vecD[of s this, OF _ refl refl refl]
  by (auto simp: Vector_index_def obj_def in_block_def Vector_begin_def GetAddress_def ptr_add_def
      Size_def split: option.splits)

lemma EmplaceBack_ok:
  assumes w: "wf_state s this" and cm: "calm T s" and v: "arg_value s a = Some v"
    and ft: "Size s this = Capacity s this \<Longrightarrow> fits T (max 1 (Capacity s this * 2))"
  shows "\<exists>s'. EmplaceBack T this a s = Ok (ptr_add (Vector_begin s' this) (Size s this)) s' \<and>
           wf_state s' this \<and> calm T s' \<and> Size s' this = Suc (Size s this) \<and>
           Capacity s' this = (if Size s this = Capacity s this then max 1 (Capacity s this * 2)
                               else Capacity s this) \<and>
           (\<forall>i. i < Size s this \<longrightarrow> Vector_index s' this i = Vector_index s this i) \<and>
           Vector_index s' this (Size s this) = Some v \<and>
           (\<forall>r. r \<noteq> this \<longrightarrow> vecs s' r = vecs s r)"
proof (cases "Size s this = Capacity s this")
  case False
  from w have wh: "wf_heap s" and wv: "wf_vec s this" by (auto simp: wf_state_def)
  let ?a = "raw_buffer (vec_data (vecs s this))"
  let ?c = "raw_capacity (vec_data (vecs s this))"
  let ?n = "vec_size (vecs s this)"
  note W = wf_vecD[OF wv refl refl refl]
  from False W(1) have lt: "Size s this < Capacity s this" by (simp add: Size_def Capacity_def)
  then have c0: "?c \<noteq> 0" "?n < ?c" by (auto simp: Size_def Capacity_def)
  have nf: "\<not> fails T (ticks s)" using cm by (simp add: calm_def)
  let ?s' = "s\<lparr>mem := (mem s)(Vector_end s this := Some v),
                 vecs := (vecs s)(this := (vecs s this)\<lparr>vec_size := Suc (Size s this)\<rparr>),
                 ticks := Suc (ticks s)\<rparr>"
  have r: "EmplaceBack T this a s = Ok (Vector_end s this) ?s'"
    by (rule EmplaceBack_in_place[OF wv nf v lt])
  have 1: "wf_state ?s' this"
    using wh W c0
    by (auto simp: wf_state_def wf_heap_def wf_vec_def Let_def Vector_end_def GetAddress_def ptr_add_def Size_def)
  have 2: "calm T ?s'" using cm by (auto intro: calm_later)
  have 3: "\<forall>i. i < Size s this \<longrightarrow> Vector_index ?s' this i = Vector_index s this i"
    by (auto simp: Vector_index_def obj_def in_block_def Vector_begin_def Vector_end_def
        GetAddress_def ptr_add_def Size_def)
  have 4: "Vector_index ?s' this (Size s this) = Some v"
    using W(3) c0
    by (auto simp: Vector_index_def obj_def in_block_def Vector_begin_def Vector_end_def
        GetAddress_def ptr_add_def Size_def)
  show ?thesis
    apply (rule exI[where x = ?s'])
    using r 1 2 3 4 False
    by (simp add: Vector_begin_def Vector_end_def GetAddress_def ptr_add_def Size_def Capacity_def)
next
  case True
  from w have wh: "wf_heap s" and wv: "wf_vec s this" by (auto simp: wf_state_def)
  define ab where "ab = raw_buffer (vec_data (vecs s this))"
  define n where "n = Size s this"
  define c' where "c' = (if n = 0 then 1 else n * 2)"
  define b where "b = next_addr s"
  have cap: "raw_capacity (vec_data (vecs s this)) = n" using True n_def by (simp add: Size_def Capacity_def)
  have sz: "vec_size (vecs s this) = n" using n_def by (simp add: Size_def)
  note W = wf_vecD[OF wv ab_def cap[symmetric] sz[symmetric]]
  have fresh: "blocks s b = None" "\<And>i. mem s (b, i) = None" "0 < b" "blocks s nullptr = None"
    "\<And>a i. b < a \<Longrightarrow> blocks s a = None \<and> mem s (a, i) = None"
    using wh b_def by (auto simp: wf_heap_def)
  have ab: "ab \<noteq> b" using W(2) W(3) fresh by (cases "n = 0") auto
  have ft': "fits T c'" using ft[OF True] True cap c'_def by (auto simp: Capacity_def max_def)
  from EmplaceBack_grow[OF wh wv cm v True ab_def n_def c'_def b_def ft']
  obtain M t where r: "EmplaceBack T this a s =
           Ok (b, n)
              (s\<lparr>blocks := ((blocks s)(b \<mapsto> c'))(ab := None), mem := M, next_addr := Suc b,
                 vecs := (vecs s)(this := \<lparr>vec_data = \<lparr>raw_buffer = b, raw_capacity = c'\<rparr>,
                                           vec_size = Suc n\<rparr>),
                 ticks := t\<rparr>)"
    and t: "ticks s \<le> t" and M1: "\<And>i. i < n \<Longrightarrow> M (b, i) = mem s (ab, i)" and M2: "M (b, n) = Some v"
    and M3: "\<And>i. n < i \<Longrightarrow> M (b, i) = None" and M4: "\<And>i. M (ab, i) = None"
    and M5: "\<And>q. fst q \<noteq> ab \<Longrightarrow> fst q \<noteq> b \<Longrightarrow> M q = mem s q"
    by blast
  let ?s' = "s\<lparr>blocks := ((blocks s)(b \<mapsto> c'))(ab := None), mem := M, next_addr := Suc b,
                 vecs := (vecs s)(this := \<lparr>vec_data = \<lparr>raw_buffer = b, raw_capacity = c'\<rparr>,
                                           vec_size = Suc n\<rparr>),
                 ticks := t\<rparr>"
  have c'0: "c' \<noteq> 0" "n < c'" "c' = max 1 (n * 2)" using c'_def by auto
  have live: "M (b, i) \<noteq> None" if "i < Suc n" for i
    using that M1[of i] M2 W(4)[of i] by (cases "i = n") auto
  have wh': "wf_heap ?s'"
    unfolding wf_heap_def using fresh ab M5 M4
    by (auto simp: Suc_le_eq)
  have wv': "wf_vec ?s' this"
    unfolding wf_vec_def using c'0 ab live M3 by (auto simp: Let_def)
  have 2: "calm T ?s'" using cm t by (auto intro: calm_later)
  have 3: "\<forall>i. i < Size s this \<longrightarrow> Vector_index ?s' this i = Vector_index s this i"
  proof (intro allI impI)
    fix i assume i: "i < Size s this"
    have "Vector_index s this i = mem s (ab, i)"
      using Vector_index_wf[OF wv i] ab_def by simp
    moreover have "Vector_index ?s' this i = M (b, i)"
      using i n_def c'0 ab
      by (simp add: Vector_index_def obj_def in_block_def Vector_begin_def GetAddress_def ptr_add_def Size_def)
    ultimately show "Vector_index ?s' this i = Vector_index s this i"
      using M1[of i] i n_def by simp
  qed
  have 4: "Vector_index ?s' this (Size s this) = Some v"
    using n_def c'0 ab M2
    by (simp add: Vector_index_def obj_def in_block_def Vector_begin_def GetAddress_def ptr_add_def Size_def)
  show ?thesis
    apply (rule exI[where x = ?s'])
    using r wh' wv' 2 3 4 True c'0(3) n_def cap
    by (simp add: wf_state_def Vector_begin_def GetAddress_def ptr_add_def Size_def Capacity_def)
qed

section \<open>Capacity growth\<close>

lemma least_pow2_step:
  assumes "(n = 0 \<and> c = 0) \<or> least_pow2 c n" "n \<le> c"
  shows "least_pow2 (if n = c then max 1 (c * 2) else c) (Suc n)"
proof (cases "n = 0 \<and> c = 0")
  case True
  then show ?thesis by (auto simp: least_pow2_def intro!: exI[where x = 0])
next
  case False
  with assms obtain e where e: "c = 2 ^ e" "n \<le> 2 ^ e" "\<forall>m. n \<le> 2 ^ m \<longrightarrow> e \<le> m"
    by (auto simp: least_pow2_def)
  show ?thesis
  proof (cases "n = c")
    case True
    have "\<forall>m. Suc n \<le> 2 ^ m \<longrightarrow> Suc e \<le> m"
    proof (intro allI impI)
      fix m assume "Suc n \<le> 2 ^ m"
      then have "(2::nat) ^ e < 2 ^ m" using True e by (simp add: Suc_le_eq)
      then have "e < m" by (simp add: power_strict_increasing_iff)
      then show "Suc e \<le> m" by simp
    qed
    moreover have "max 1 (c * 2) = 2 ^ Suc e" using e by simp
    moreover have "Suc n \<le> 2 ^ Suc e" using True e by simp
    ultimately show ?thesis using True unfolding least_pow2_def by (metis (full_types))
  next
    case False
    then have "Suc n \<le> 2 ^ e" using assms(2) e by simp
    moreover have "\<forall>m. Suc n \<le> 2 ^ m \<longrightarrow> e \<le> m" using e(3) by auto
    ultimately show ?thesis using False e(1) unfolding least_pow2_def by auto
  qed
qed

lemma elems_snoc:
  assumes "Size s' this = Suc (Size s this)"
    and "\<forall>i. i < Size s this \<longrightarrow> Vector_index s' this i = Vector_index s this i"
    and "Vector_index s' this (Size s this) = Some v"
  shows "elems s' this = elems s this @ [Some v]"
  using assms by (simp add: elems_def)

lemma mutate_append_ok:
  assumes w: "wf_state s this" and cm: "calm T s" and m: "arg_of m = Some a"
    and v: "arg_value s a = Some v"
    and ft: "Size s this = Capacity s this \<Longrightarrow> fits T (max 1 (Capacity s this * 2))"
  shows "\<exists>s'. mutate T this m s = Ok () s' \<and> wf_state s' this \<and> calm T s' \<and>
           Size s' this = Suc (Size s this) \<and>
           Capacity s' this = (if Size s this = Capacity s this then max 1 (Capacity s this * 2)
                               else Capacity s this) \<and>
           elems s' this = elems s this @ [Some v]"
proof -
  from EmplaceBack_ok[OF w cm v ft]
  obtain s' where r: "EmplaceBack T this a s = Ok (ptr_add (Vector_begin s' this) (Size s this)) s'"
    and p: "wf_state s' this" "calm T s'" "Size s' this = Suc (Size s this)"
      "Capacity s' this = (if Size s this = Capacity s this then max 1 (Capacity s this * 2)
                               else Capacity s this)"
    and e: "\<forall>i. i < Size s this \<longrightarrow> Vector_index s' this i = Vector_index s this i"
      "Vector_index s' this (Size s this) = Some v"
    by blast
  have el: "elems s' this = elems s this @ [Some v]" by (rule elems_snoc[OF p(3) e])
  have "mutate T this m s = Ok () s'"
    using m r by (cases m) (simp_all add: PushBack_def)
  then show ?thesis using p el by blast
qed

lemma calls_capacity:
  assumes "wf_state s this" and "calm T s"
    and "(Size s this = 0 \<and> Capacity s this = 0) \<or> least_pow2 (Capacity s this) (Size s this)"
    and "ms \<noteq> []" and "readable T this ms s" and "fits T (2 * (Size s this + length ms))"
  shows "\<exists>s'. calls T this ms s = Ok () s' \<and> wf_state s' this \<and>
           Size s' this = Size s this + length ms \<and>
           least_pow2 (Capacity s' this) (Size s' this) \<and>
           elems s' this = elems s this @ appended T this ms s"
  using assms
proof (induction ms arbitrary: s)
  case Nil
  then show ?case by simp
next
  case (Cons m ms)
  from Cons.prems(5) obtain a v where a: "arg_of m = Some a" and v: "arg_value s a = Some v"
    by (auto split: option.splits)
  have ft: "fits T (max 1 (Capacity s this * 2))" if "Size s this = Capacity s this"
    by (rule fits_le[OF Cons.prems(6)]) (use that in auto)
  from mutate_append_ok[OF Cons.prems(1,2) a v ft]
  obtain s1 where s1: "mutate T this m s = Ok () s1" "wf_state s1 this" "calm T s1"
    "Size s1 this = Suc (Size s this)"
    "Capacity s1 this = (if Size s this = Capacity s this then max 1 (Capacity s this * 2)
                               else Capacity s this)"
    "elems s1 this = elems s this @ [Some v]"
    by blast
  have le: "Size s this \<le> Capacity s this"
    using Cons.prems(1) by (auto simp: wf_state_def wf_vec_def Let_def Size_def Capacity_def)
  have lp: "least_pow2 (Capacity s1 this) (Size s1 this)"
    using least_pow2_step[OF Cons.prems(3) le] s1(4,5) by simp
  show ?case
  proof (cases "ms = []")
    case True
    then show ?thesis using s1 lp a v by simp
  next
    case False
    have rd: "readable T this ms s1" using Cons.prems(5) a s1(1) by simp
    have ft1: "fits T (2 * (Size s1 this + length ms))" using Cons.prems(6) s1(4) by simp
    from Cons.IH[OF s1(2,3) _ False rd ft1] lp
    obtain s' where "calls T this ms s1 = Ok () s'" "wf_state s' this"
      "Size s' this = Size s1 this + length ms"
      "least_pow2 (Capacity s' this) (Size s' this)"
      "elems s' this = elems s1 this @ appended T this ms s1" by blast
    then show ?thesis using s1 a v by simp
  qed
qed

lemma appends_calls: "appends T this xs s = calls T this (map CallPushBack xs) s"
proof (induction xs arbitrary: s)
  case Nil
  then show ?case by simp
next
  case (Cons x xs)
  have "appends T this xs = calls T this (map CallPushBack xs)"
    by (rule ext) (rule Cons.IH)
  then show ?case by simp
qed

lemma by_value_appends:
  assumes "wf_state s this" and "calm T s" and "fits T (2 * (Size s this + length vs))"
  shows "readable T this (map (\<lambda>v. CallPushBack (ByValue v)) vs) s \<and>
         appended T this (map (\<lambda>v. CallPushBack (ByValue v)) vs) s = map Some vs"
  using assms
proof (induction vs arbitrary: s)
  case Nil
  then show ?case by simp
next
  case (Cons v vs)
  have ft: "fits T (max 1 (Capacity s this * 2))" if "Size s this = Capacity s this"
    by (rule fits_le[OF Cons.prems(3)]) (use that in auto)
  from mutate_append_ok[OF Cons.prems(1,2), of "CallPushBack (ByValue v)" "ByValue v" v] ft
  obtain s1 where s1: "mutate T this (CallPushBack (ByValue v)) s = Ok () s1" "wf_state s1 this"
    "calm T s1" "Size s1 this = Suc (Size s this)"
    by auto
  have "fits T (2 * (Size s1 this + length vs))" using Cons.prems(3) s1(4) by simp
  from Cons.IH[OF s1(2,3) this] s1(1) show ?case by simp
qed

text \<open>
  C2, as amended. First part: from a well-formed vector of size 0 and capacity 0 (a
  default-constructed one), when no allocation and no constructor fails, the arguments
  are readable and the requests for blocks fit, any \<open>k \<ge> 1\<close> consecutive appends
  (\<^verbatim>\<open>PushBack\<close> or \<^verbatim>\<open>EmplaceBack\<close>) all return; the vector is then well-formed, its size
  is \<open>k\<close>, its elements are the appended values in order and its capacity is the
  smallest power of two that is at least \<open>k\<close>. Second part: an append to a well-formed
  vector whose size equals its capacity returns and leaves a well-formed vector of
  capacity \<open>max 1 (capacity * 2)\<close> with the old elements followed by the new one.
  (Arguments passed by value are always readable and are what \<open>appended\<close> lists:
  lemma \<open>by_value_appends\<close>.)
\<close>

theorem append_capacity:
  "(wf_state s this \<and> calm T s \<and> Size s this = 0 \<and> Capacity s this = 0 \<and> ms \<noteq> [] \<and>
    readable T this ms s \<and> fits T (2 * length ms) \<longrightarrow>
      (\<exists>s'. calls T this ms s = Ok () s' \<and> wf_state s' this \<and> Size s' this = length ms \<and>
            elems s' this = appended T this ms s \<and>
            (\<exists>e. Capacity s' this = 2 ^ e \<and> length ms \<le> 2 ^ e \<and> (\<forall>m. length ms \<le> 2 ^ m \<longrightarrow> e \<le> m)))) \<and>
   (wf_state s this \<and> calm T s \<and> arg_of m = Some a \<and> arg_value s a = Some v \<and>
    Size s this = Capacity s this \<and> fits T (max 1 (Capacity s this * 2)) \<longrightarrow>
      (\<exists>s'. mutate T this m s = Ok () s' \<and> wf_state s' this \<and> Size s' this = Suc (Size s this) \<and>
            Capacity s' this = max 1 (Capacity s this * 2) \<and>
            elems s' this = elems s this @ [Some v]))"
proof (intro conjI impI)
  assume h: "wf_state s this \<and> calm T s \<and> Size s this = 0 \<and> Capacity s this = 0 \<and> ms \<noteq> [] \<and>
    readable T this ms s \<and> fits T (2 * length ms)"
  then have "\<exists>s'. calls T this ms s = Ok () s' \<and> wf_state s' this \<and>
           Size s' this = Size s this + length ms \<and>
           least_pow2 (Capacity s' this) (Size s' this) \<and>
           elems s' this = elems s this @ appended T this ms s"
    by (intro calls_capacity) auto
  moreover have "elems s this = []" using h by (simp add: elems_def)
  ultimately show "\<exists>s'. calls T this ms s = Ok () s' \<and> wf_state s' this \<and> Size s' this = length ms \<and>
            elems s' this = appended T this ms s \<and>
            (\<exists>e. Capacity s' this = 2 ^ e \<and> length ms \<le> 2 ^ e \<and> (\<forall>m. length ms \<le> 2 ^ m \<longrightarrow> e \<le> m))"
    using h by (auto simp: least_pow2_def)
next
  assume h: "wf_state s this \<and> calm T s \<and> arg_of m = Some a \<and> arg_value s a = Some v \<and>
    Size s this = Capacity s this \<and> fits T (max 1 (Capacity s this * 2))"
  then show "\<exists>s'. mutate T this m s = Ok () s' \<and> wf_state s' this \<and> Size s' this = Suc (Size s this) \<and>
            Capacity s' this = max 1 (Capacity s this * 2) \<and>
            elems s' this = elems s this @ [Some v]"
    using mutate_append_ok[of s this T m a v] by auto
qed

lemma wf_empty_state: "wf_state empty_state 0 \<and> calm T_int empty_state \<and> Size empty_state 0 = 0 \<and> Capacity empty_state 0 = 0"
  by (simp add: wf_state_def wf_heap_def wf_vec_def calm_def empty_state_def T_int_def Vector_default_def
      RawMemory_default_def Let_def Size_def Capacity_def)

lemmas run_defs = Vector_copy_ctor_def Vector_copy_assign_def Vector_copy_def Vector_destroy_def
  Vector_sized_ctor_def RawMemory_sized_def RawMemory_destroy_def Allocate_def Deallocate_def
  with_new_data_def fallible_def Size_def Capacity_def uninitialized_copy_n_def
  uninitialized_move_n_def uninitialized_value_construct_n_def value_construct_def
  Vector_begin_def Vector_end_def GetAddress_def copy_construct_def move_construct_def construct_def
  copy_assign_def move_assign_def assign_temporary_def destroy_at_def obj_def in_block_def put_def
  ptr_add_def ptr_sub_def set_size_def set_data_def Vector_default_def RawMemory_default_def
  PopBack_def PushBack_def EmplaceBack_def Emplace_def Insert_def Erase_def Reserve_def Resize_def
  CopyOrMove_def Vector_index_def to_int_small Let_def

lemma slots_T_int: "n < 2 ^ 62 \<Longrightarrow> slots T_int n = n" "slots (T_fail_at k) n = slots T_int n"
  by (simp_all add: slots_def T_int_def T_fail_at_def)

lemma T_int_simps:
  "nothrow_move_constructible T_int" "copy_constructible T_int" "moved_from T_int = (\<lambda>x. x)"
  "value_init T_int = 0" "fails T_int k = False"
  "nothrow_move_constructible (T_fail_at j)" "copy_constructible (T_fail_at j)"
  "moved_from (T_fail_at j) = (\<lambda>x. x)" "value_init (T_fail_at j) = 0"
  "fails (T_fail_at j) k = (k = j)"
  by (simp_all add: T_int_def T_fail_at_def)

lemma slots_T_int_Suc:
  "slots T_int (Suc 0) = Suc 0" "slots T_int (Suc (Suc 0)) = Suc (Suc 0)"
  "slots T_int (Suc (Suc (Suc (Suc 0)))) = Suc (Suc (Suc (Suc 0)))"
  by (simp_all add: slots_def T_int_def)

lemma three_appends_run:
  "readable T_int 0 [CallPushBack (ByValue 1), CallEmplaceBack (ByRef (1, 0)), CallPushBack (ByValue 3)]
     empty_state \<and>
   appended T_int 0 [CallPushBack (ByValue 1), CallEmplaceBack (ByRef (1, 0)), CallPushBack (ByValue 3)]
     empty_state = [Some 1, Some 1, Some 3]"
  by (simp add: run_defs slots_T_int T_int_simps empty_state_def)

theorem append_capacity_witness:
  "wf_state empty_state 0 \<and> calm T_int empty_state \<and> Size empty_state 0 = 0 \<and> Capacity empty_state 0 = 0 \<and>
   readable T_int 0 [CallPushBack (ByValue 1), CallEmplaceBack (ByRef (1, 0)), CallPushBack (ByValue 3)]
     empty_state \<and>
   fits T_int 6 \<and>
   (\<exists>s'. calls T_int 0 [CallPushBack (ByValue 1), CallEmplaceBack (ByRef (1, 0)), CallPushBack (ByValue 3)]
           empty_state = Ok () s' \<and>
         wf_state s' 0 \<and> Size s' 0 = 3 \<and> Capacity s' 0 = 4 \<and> elems s' 0 = [Some 1, Some 1, Some 3]) \<and>
   (\<exists>s'. mutate T_int 0 (CallEmplaceBack (ByValue 1)) empty_state = Ok () s' \<and> wf_state s' 0 \<and>
         Capacity s' 0 = 1 \<and> elems s' 0 = [Some 1])"
proof -
  let ?ms = "[CallPushBack (ByValue 1), CallEmplaceBack (ByRef (1, 0)), CallPushBack (ByValue (3::int))]"
  note w = wf_empty_state
  have f6: "fits T_int 6" and f1: "fits T_int (max 1 (Capacity empty_state 0 * 2))"
    using w by (simp_all add: fits_def T_int_def)
  have el: "elems empty_state 0 = []" using w by (simp add: elems_def)
  from append_capacity[of empty_state 0 T_int ?ms "CallEmplaceBack (ByValue 1)" "ByValue 1" 1]
    w three_appends_run f6 f1
  have A: "\<exists>s'. calls T_int 0 ?ms empty_state = Ok () s' \<and> wf_state s' 0 \<and> Size s' 0 = 3 \<and>
            elems s' 0 = [Some 1, Some 1, Some 3] \<and>
            (\<exists>e. Capacity s' 0 = 2 ^ e \<and> 3 \<le> (2::nat) ^ e \<and> (\<forall>m. 3 \<le> (2::nat) ^ m \<longrightarrow> e \<le> m))"
    and B: "\<exists>s'. mutate T_int 0 (CallEmplaceBack (ByValue 1)) empty_state = Ok () s' \<and> wf_state s' 0 \<and>
            Capacity s' 0 = 1 \<and> elems s' 0 = [Some 1]"
    by (auto simp: el)
  from A obtain s' e where s': "calls T_int 0 ?ms empty_state = Ok () s'" "wf_state s' 0" "Size s' 0 = 3"
    "elems s' 0 = [Some 1, Some 1, Some 3]"
    "Capacity s' 0 = 2 ^ e" "3 \<le> (2::nat) ^ e" "\<forall>m. 3 \<le> (2::nat) ^ m \<longrightarrow> e \<le> m" by blast
  from s'(7) have "e \<le> 2" by (auto dest: spec[where x = 2])
  moreover have "e \<noteq> 0" "e \<noteq> 1" using s'(6) by (auto intro: ccontr)
  ultimately have "e = 2" by arith
  then have "Capacity s' 0 = 4" using s'(5) by simp
  with s' B w three_appends_run f6 show ?thesis by blast
qed

text \<open>
  C2 as stated fails for an empty vector that is not default-constructed: a vector built
  with three elements and emptied by \<^verbatim>\<open>Resize(0)\<close> is well-formed, has size 0 and keeps
  the capacity 3; one append leaves the capacity at 3, which is not the smallest power of
  two that is at least 1.
\<close>

lemma three_no_power: "(3::nat) \<noteq> 2 ^ e"
proof (cases e)
  case 0
  then show ?thesis by simp
next
  case (Suc k)
  have "even ((2::nat) ^ Suc k)" by simp
  moreover have "odd (3::nat)" by simp
  ultimately show ?thesis unfolding Suc by metis
qed

theorem emptied_vector_keeps_capacity:
  "\<exists>s1 s2 s3. Vector_sized_ctor T_int 0 3 empty_state = Ok () s1 \<and>
      Resize T_int 0 0 s1 = Ok () s2 \<and> wf_state s2 0 \<and> Size s2 0 = 0 \<and> Capacity s2 0 = 3 \<and>
      PushBack T_int 0 (ByValue 7) s2 = Ok () s3 \<and> Size s3 0 = 1 \<and> Capacity s3 0 = 3 \<and>
      \<not> least_pow2 (Capacity s3 0) 1"
proof -
  let ?d = "\<lparr>vec_data = \<lparr>raw_buffer = 1, raw_capacity = 3\<rparr>, vec_size = 3\<rparr>"
  let ?s1 = "\<lparr>blocks = (\<lambda>_. None)(1 \<mapsto> 3),
              mem = ((\<lambda>_. None)((1, 0) \<mapsto> 0, (1, 1) \<mapsto> 0, (1, 2) \<mapsto> 0)),
              next_addr = 2, vecs = (\<lambda>_. Vector_default)(0 := ?d), ticks = 4\<rparr> :: int state"
  let ?s2 = "?s1\<lparr>mem := (\<lambda>_. None), vecs := (\<lambda>_. Vector_default)(0 := ?d\<lparr>vec_size := 0\<rparr>)\<rparr>"
  let ?s3 = "?s2\<lparr>mem := (\<lambda>_. None)((1, 0) \<mapsto> 7),
               vecs := (\<lambda>_. Vector_default)(0 := ?d\<lparr>vec_size := 1\<rparr>), ticks := 5\<rparr>"
  have 1: "Vector_sized_ctor T_int 0 3 empty_state = Ok () ?s1"
    by (simp add: run_defs slots_T_int T_int_simps empty_state_def numeral_3_eq_3)
       (simp add: numeral_2_eq_2)
  have 2: "Resize T_int 0 0 ?s1 = Ok () ?s2"
    by (simp add: run_defs numeral_3_eq_3) (auto simp: fun_eq_iff)
  have 3: "PushBack T_int 0 (ByValue 7) ?s2 = Ok () ?s3"
    by (simp add: run_defs T_int_simps)
  have 4: "wf_state ?s2 0"
    by (simp add: wf_state_def wf_heap_def wf_vec_def Let_def)
  have 5: "\<not> least_pow2 (Capacity ?s3 0) 1"
    using three_no_power by (simp add: least_pow2_def Capacity_def)
  show ?thesis
    apply (rule exI[where x = ?s1], rule exI[where x = ?s2], rule exI[where x = ?s3])
    using 1 2 3 4 5 by (simp add: Size_def Capacity_def)
qed

section \<open>Inserting an element\<close>

lemma assign_temporary_throw:
  "fails T (ticks s) \<Longrightarrow> assign_temporary T p a s = Throw ElemThrow (s\<lparr>ticks := Suc (ticks s)\<rparr>)"
  by (simp add: assign_temporary_def fallible_def)

lemma Emplace_shift:
  assumes w: "wf_vec s this" and a: "a = raw_buffer (vec_data (vecs s this))" and n: "n = Size s this"
    and p: "p < n" and lt: "n < Capacity s this" and x: "mem s (a, n - 1) = Some x"
    and nf: "\<forall>k. k < (if nothrow_move_constructible T then 0 else 1) + (n - 1 - p) \<longrightarrow> \<not> fails T (ticks s + k)"
  shows "and_then (move_construct T (a, n) (a, n - 1) s) (\<lambda>_ s1. move_backward T (a, p) (n - 1 - p) (a, n) s1)
         = Ok () (s\<lparr>mem := shr T a p (n - 1 - p) ((mem s)((a, n - 1) := Some (moved_from T x), (a, n) := Some x)),
                     ticks := ticks s + (if nothrow_move_constructible T then 0 else 1) + (n - 1 - p)\<rparr>)"
proof -
  let ?c = "raw_capacity (vec_data (vecs s this))"
  let ?mc = "if nothrow_move_constructible T then 0 else (1::nat)"
  have sz: "vec_size (vecs s this) = n" using n by (simp add: Size_def)
  note W = wf_vecD[OF w a refl sz[symmetric]]
  have c: "blocks s a = Some ?c" "n < ?c" using W(3) lt by (auto simp: Capacity_def)
  let ?s1 = "s\<lparr>mem := (mem s)((a, n - 1) := Some (moved_from T x), (a, n) := Some x),
               ticks := ticks s + ?mc\<rparr>"
  have mc: "move_construct T (a, n) (a, n - 1) s = Ok () ?s1"
    using c p x nf by (intro move_construct_ok[where c = ?c and c' = ?c]) (auto dest: spec[where x = 0])
  have "move_backward T (a, p) (n - 1 - p) (a, Suc (p + (n - 1 - p))) ?s1 =
          Ok () (?s1\<lparr>mem := shr T a p (n - 1 - p) (mem ?s1), ticks := ticks ?s1 + (n - 1 - p)\<rparr>)"
  proof (rule move_backward_ok[where c = ?c])
    show "blocks ?s1 a = Some ?c" using c by simp
    show "p + (n - 1 - p) < ?c" using c p by simp
    show "\<forall>j. p \<le> j \<and> j \<le> p + (n - 1 - p) \<longrightarrow> mem ?s1 (a, j) \<noteq> None"
      using W(4) p by auto
    show "\<forall>k<n - 1 - p. \<not> fails T (ticks ?s1 + k)"
    proof (intro allI impI)
      fix k assume "k < n - 1 - p"
      then have "\<not> fails T (ticks s + (?mc + k))" using nf by (intro nf[rule_format]) auto
      then show "\<not> fails T (ticks ?s1 + k)" by (simp add: add.assoc)
    qed
  qed
  moreover have "Suc (p + (n - 1 - p)) = n" using p by simp
  ultimately show ?thesis using mc by simp
qed

lemma Emplace_in_place_steps:
  assumes w: "wf_vec s this" and a: "a = raw_buffer (vec_data (vecs s this))" and n: "n = Size s this"
    and p: "p < n" "p < 2 ^ 31" and lt: "n < Capacity s this" and x: "mem s (a, n - 1) = Some x"
    and nf: "\<forall>k. k < (if nothrow_move_constructible T then 0 else 1) + (n - 1 - p) \<longrightarrow> \<not> fails T (ticks s + k)"
    and s2: "s2 = s\<lparr>mem := shr T a p (n - 1 - p) ((mem s)((a, n - 1) := Some (moved_from T x), (a, n) := Some x)),
                     ticks := ticks s + (if nothrow_move_constructible T then 0 else 1) + (n - 1 - p)\<rparr>"
  shows "Emplace T this (a, p) values s =
           and_then (assign_temporary T (a, p) values s2)
             (\<lambda>_ s6. Ok (a, p) (set_size this (Suc n) s6))"
proof -
  have sz: "vec_size (vecs s this) = n" using n by (simp add: Size_def)
  have f1: "nat (to_int (snd (a, p))) = p" "(to_int (snd (a, p)) < 0) = False"
    using p by (simp_all add: to_int_small)
  have f3: "((a, p) = (a, n)) = False" "(fst (a, p) \<noteq> fst (Vector_begin s this)) = False"
    "(Size s this < Suc p) = False" "(Size s this < Capacity s this) = True"
    using p a sz lt n by (auto simp: Vector_end_def Vector_begin_def GetAddress_def ptr_add_def)
  have f7: "ptr_add (Vector_begin s this) p = (a, p)" "Vector_end s this = (a, n)"
    "ptr_sub (a, n) 1 = (a, n - 1)"
    using a sz by (simp_all add: Vector_end_def Vector_begin_def GetAddress_def ptr_add_def ptr_sub_def)
  let ?s1 = "s\<lparr>mem := (mem s)((a, n - 1) := Some (moved_from T x), (a, n) := Some x),
               ticks := ticks s + (if nothrow_move_constructible T then 0 else 1)\<rparr>"
  have mc: "move_construct T (a, n) (a, n - 1) s = Ok () ?s1"
  proof -
    let ?c = "raw_capacity (vec_data (vecs s this))"
    note W = wf_vecD[OF w a refl sz[symmetric]]
    have c: "blocks s a = Some ?c" "n < ?c" using W(3) lt by (auto simp: Capacity_def)
    show ?thesis
      using c p x nf by (intro move_construct_ok[where c = ?c and c' = ?c]) (auto dest: spec[where x = 0])
  qed
  have g: "Size ?s1 this - 1 - p = n - 1 - p" "Vector_end ?s1 this = (a, n)"
    using a sz by (simp_all add: Size_def Vector_end_def GetAddress_def ptr_add_def)
  have mb: "move_backward T (a, p) (n - 1 - p) (a, n) ?s1 = Ok () s2"
    using Emplace_shift[OF w a n p(1) lt x nf] mc s2 by simp
  have h: "Suc (Size s6 this) = Suc (Size s6 this)" for s6 :: "'a state" by simp
  have E: "Emplace T this (a, p) values s =
           and_then (assign_temporary T (a, p) values s2)
             (\<lambda>_ s6. Ok (ptr_add (Vector_begin (set_size this (Suc (Size s6 this)) s6) this) p)
                         (set_size this (Suc (Size s6 this)) s6))"
    unfolding Emplace_def Let_def
    by (simp only: f1 f3 f7 if_True if_False mc and_then.simps g mb)
  have asg: "assign_temporary T (a, p) values s2 = Ok r s6 \<Longrightarrow>
         vecs s6 = vecs s" for r s6
    using s2 by (auto simp: assign_temporary_def fallible_def put_def split: if_splits option.splits)
  show ?thesis
  proof (cases "assign_temporary T (a, p) values s2")
    case (Ok r s6)
    then show ?thesis using E asg[OF Ok] a sz
      by (simp add: Vector_begin_def GetAddress_def ptr_add_def set_size_def Size_def)
  qed (simp_all add: E)
qed

lemma Emplace_in_place_ok:
  assumes w: "wf_vec s this" and a: "a = raw_buffer (vec_data (vecs s this))" and n: "n = Size s this"
    and p: "p < n" "p < 2 ^ 31" and lt: "n < Capacity s this" and cm: "calm T s"
  shows "\<exists>M t. Emplace T this (a, p) (ByValue v) s =
            Ok (a, p) (s\<lparr>mem := M, vecs := (vecs s)(this := (vecs s this)\<lparr>vec_size := Suc n\<rparr>),
                        ticks := t\<rparr>) \<and>
          ticks s \<le> t \<and> M (a, p) = Some v \<and> (\<forall>i. i < p \<longrightarrow> M (a, i) = mem s (a, i)) \<and>
          (\<forall>i. p \<le> i \<and> i < n \<longrightarrow> M (a, Suc i) = mem s (a, i)) \<and>
          (\<forall>q. fst q \<noteq> a \<or> n < snd q \<longrightarrow> M q = mem s q)"
proof -
  let ?c = "raw_capacity (vec_data (vecs s this))"
  let ?mc = "if nothrow_move_constructible T then 0 else (1::nat)"
  have sz: "vec_size (vecs s this) = n" using n by (simp add: Size_def)
  note W = wf_vecD[OF w a refl sz[symmetric]]
  have c: "blocks s a = Some ?c" "n < ?c" using W(3) lt by (auto simp: Capacity_def)
  from W(4)[of "n - 1"] p obtain x where x: "mem s (a, n - 1) = Some x" by auto
  let ?m1 = "(mem s)((a, n - 1) := Some (moved_from T x), (a, n) := Some x)"
  let ?t2 = "ticks s + ?mc + (n - 1 - p)"
  define s2 where "s2 = s\<lparr>mem := shr T a p (n - 1 - p) ?m1, ticks := ?t2\<rparr>"
  have nf: "\<forall>k. k < ?mc + (n - 1 - p) \<longrightarrow> \<not> fails T (ticks s + k)"
    using cm by (simp add: calm_def)
  have E: "Emplace T this (a, p) (ByValue v) s =
           and_then (assign_temporary T (a, p) (ByValue v) s2)
             (\<lambda>_ s6. Ok (a, p) (set_size this (Suc n) s6))"
    by (rule Emplace_in_place_steps[OF w a n p lt x nf s2_def])
  have lp: "mem s2 (a, p) \<noteq> None"
    using W(4)[of p] p x by (auto simp: s2_def shr_def)
  have nf2: "\<not> fails T (ticks s2)" "\<not> fails T (Suc (ticks s2))"
    using cm by (auto simp: calm_def s2_def)
  have at: "assign_temporary T (a, p) (ByValue v) s2 =
              Ok () (s2\<lparr>mem := (mem s2)((a, p) := Some v), ticks := Suc (Suc (ticks s2))\<rparr>)"
    using nf2 lp c p by (intro assign_temporary_ok[where c = ?c]) (auto simp: s2_def)
  let ?M = "(shr T a p (n - 1 - p) ?m1)((a, p) := Some v)"
  have r: "Emplace T this (a, p) (ByValue v) s =
            Ok (a, p) (s\<lparr>mem := ?M, vecs := (vecs s)(this := (vecs s this)\<lparr>vec_size := Suc n\<rparr>),
                        ticks := Suc (Suc ?t2)\<rparr>)"
    unfolding E at by (simp add: s2_def set_size_def)
  have 1: "\<forall>i. i < p \<longrightarrow> ?M (a, i) = mem s (a, i)" using p by (auto simp: shr_def)
  have 2: "\<forall>i. p \<le> i \<and> i < n \<longrightarrow> ?M (a, Suc i) = mem s (a, i)"
    using p x by (auto simp: shr_def Suc_le_eq)
  have 3: "\<forall>q. fst q \<noteq> a \<or> n < snd q \<longrightarrow> ?M q = mem s q" using p by (auto simp: shr_def)
  show ?thesis
    apply (rule exI[where x = ?M], rule exI[where x = "Suc (Suc ?t2)"])
    using r 1 2 3 by simp
qed

lemma transfer_around_ok:
  assumes cm: "calm T s" and n: "n = Size s this" and p: "p < n" and ab: "a \<noteq> b"
    and ba: "blocks s a = Some ca" "n \<le> ca" and bb: "blocks s b = Some cb" "n < cb"
    and live: "\<forall>i. i < n \<longrightarrow> mem s (a, i) \<noteq> None"
  shows "\<exists>M t.
           (if nothrow_move_constructible T \<or> \<not> copy_constructible T then
              and_then (uninitialized_move_n T (a, 0) p (b, 0) s) (\<lambda>_ s3.
                uninitialized_move_n T (a, p) (Size s3 this - p) (b, p + 1) s3)
            else
              and_then (uninitialized_copy_n T (a, 0) p (b, 0) s) (\<lambda>_ s3.
                uninitialized_copy_n T (a, p) (Size s3 this - p) (b, p + 1) s3))
           = Ok () (s\<lparr>mem := M, ticks := t\<rparr>) \<and>
           ticks s \<le> t \<and> (\<forall>i. i < p \<longrightarrow> M (b, i) = mem s (a, i)) \<and>
           (\<forall>i. p \<le> i \<and> i < n \<longrightarrow> M (b, Suc i) = mem s (a, i)) \<and> M (b, p) = mem s (b, p) \<and>
           (\<forall>i. i < n \<longrightarrow> M (a, i) \<noteq> None) \<and>
           (\<forall>q. (fst q \<noteq> a \<and> fst q \<noteq> b) \<or> n < snd q \<longrightarrow> M q = mem s q) \<and>
           (\<forall>i. n \<le> i \<longrightarrow> M (a, i) = mem s (a, i))"
proof -
  have pre1: "p = 0 \<or> (fst (a, 0::nat) \<noteq> fst (b, 0::nat) \<and> blocks s (fst (a, 0::nat)) = Some ca \<and>
      snd (a, 0::nat) + p \<le> ca \<and> blocks s (fst (b, 0::nat)) = Some cb \<and> snd (b, 0::nat) + p \<le> cb \<and>
      (\<forall>k. k < p \<longrightarrow> mem s (fst (a, 0::nat), snd (a, 0::nat) + k) \<noteq> None))"
    using ab ba bb p live by auto
  have step2: "\<exists>M t. R (s\<lparr>mem := M1, ticks := t1\<rparr>) = Ok () (s\<lparr>mem := M, ticks := t\<rparr>) \<and>
           ticks s \<le> t \<and> (\<forall>i. i < p \<longrightarrow> M (b, i) = mem s (a, i)) \<and>
           (\<forall>i. p \<le> i \<and> i < n \<longrightarrow> M (b, Suc i) = mem s (a, i)) \<and> M (b, p) = mem s (b, p) \<and>
           (\<forall>i. i < n \<longrightarrow> M (a, i) \<noteq> None) \<and>
           (\<forall>q. (fst q \<noteq> a \<and> fst q \<noteq> b) \<or> n < snd q \<longrightarrow> M q = mem s q) \<and>
           (\<forall>i. n \<le> i \<longrightarrow> M (a, i) = mem s (a, i))"
    if t1: "ticks s \<le> t1" and tr1: "transferred (a, 0) p (b, 0) (mem s) M1"
      and R: "\<And>s3. calm T s3 \<Longrightarrow> blocks s3 = blocks s \<Longrightarrow>
               (\<forall>k. k < n - p \<longrightarrow> mem s3 (a, p + k) \<noteq> None) \<Longrightarrow>
               \<exists>M t. R s3 = Ok () (s3\<lparr>mem := M, ticks := t\<rparr>) \<and> ticks s3 \<le> t \<and>
                     transferred (a, p) (n - p) (b, p + 1) (mem s3) M"
    for R M1 t1
  proof -
    let ?s3 = "s\<lparr>mem := M1, ticks := t1\<rparr>"
    have A1: "M1 (b, i) = mem s (a, i)" if "i < p" for i
      using tr1 that by (simp add: transferred_def)
    have A2: "M1 (a, i) \<noteq> None" if "i < p" for i
      using tr1 that by (simp add: transferred_def)
    have A3: "M1 q = mem s q" if "\<not> (fst q = b \<and> snd q < p)" "\<not> (fst q = a \<and> snd q < p)" for q
    proof -
      from tr1 have "\<forall>q. \<not> (fst q = b \<and> snd q < p) \<and> \<not> (fst q = a \<and> snd q < p) \<longrightarrow> M1 q = mem s q"
        by (simp add: transferred_def)
      with that show ?thesis by blast
    qed
    have l3: "\<forall>k. k < n - p \<longrightarrow> mem ?s3 (a, p + k) \<noteq> None"
      using A3 live ab by auto
    from R[of ?s3, OF calm_later[OF cm] _ l3] t1
    obtain M t where r: "R ?s3 = Ok () (?s3\<lparr>mem := M, ticks := t\<rparr>)" and t: "t1 \<le> t"
      and tr2: "transferred (a, p) (n - p) (b, p + 1) M1 M"
      by auto
    have B1: "M (b, p + 1 + i) = M1 (a, p + i)" if "i < n - p" for i
      using tr2 that by (simp add: transferred_def)
    have B2: "M (a, p + i) \<noteq> None" if "i < n - p" for i
      using tr2 that by (simp add: transferred_def)
    have B3: "M q = M1 q" if "\<not> (fst q = b \<and> p + 1 \<le> snd q \<and> snd q < p + 1 + (n - p))"
       "\<not> (fst q = a \<and> p \<le> snd q \<and> snd q < p + (n - p))" for q
    proof -
      from tr2 have "\<forall>q. \<not> (fst q = b \<and> p + 1 \<le> snd q \<and> snd q < p + 1 + (n - p)) \<and>
             \<not> (fst q = a \<and> p \<le> snd q \<and> snd q < p + (n - p)) \<longrightarrow> M q = M1 q"
        by (simp add: transferred_def)
      with that show ?thesis by blast
    qed
    have C1: "M (b, i) = mem s (a, i)" if "i < p" for i
      using B3[of "(b, i)"] A1[OF that] that ab by simp
    have C2: "M (b, Suc i) = mem s (a, i)" if "p \<le> i" "i < n" for i
    proof -
      have "M (b, p + 1 + (i - p)) = M1 (a, p + (i - p))" using that by (intro B1) auto
      moreover have "M1 (a, i) = mem s (a, i)" using that ab by (intro A3) auto
      ultimately show ?thesis using that by simp
    qed
    have C3: "M (b, p) = mem s (b, p)"
      using B3[of "(b, p)"] A3[of "(b, p)"] ab by simp
    have C4: "M (a, i) \<noteq> None" if "i < n" for i
    proof (cases "i < p")
      case True
      then show ?thesis using B3[of "(a, i)"] A2[of i] ab by simp
    next
      case False
      then show ?thesis using B2[of "i - p"] that by simp
    qed
    have C5: "M q = mem s q" if "(fst q \<noteq> a \<and> fst q \<noteq> b) \<or> n < snd q" for q
      using B3[of q] A3[of q] that p by auto
    have C6: "M (a, i) = mem s (a, i)" if "n \<le> i" for i
      using B3[of "(a, i)"] A3[of "(a, i)"] that p ab by auto
    show ?thesis
      apply (rule exI[where x = M], rule exI[where x = t])
      using r t t1 C1 C2 C3 C4 C5 C6 by simp
  qed
  have pre2: "n - p = 0 \<or> (fst (a, p) \<noteq> fst (b, p + 1) \<and> blocks s3 (fst (a, p)) = Some ca \<and>
      snd (a, p) + (n - p) \<le> ca \<and> blocks s3 (fst (b, p + 1)) = Some cb \<and> snd (b, p + 1) + (n - p) \<le> cb \<and>
      (\<forall>k. k < n - p \<longrightarrow> mem s3 (fst (a, p), snd (a, p) + k) \<noteq> None))"
    if "blocks s3 = blocks s" "\<forall>k. k < n - p \<longrightarrow> mem s3 (a, p + k) \<noteq> None" for s3 :: "'a state"
    using that ab ba bb p by auto
  show ?thesis
  proof (cases "nothrow_move_constructible T \<or> \<not> copy_constructible T")
    case True
    from uninitialized_move_n_ok[OF cm pre1]
    obtain M1 t1 where 1: "uninitialized_move_n T (a, 0) p (b, 0) s = Ok () (s\<lparr>mem := M1, ticks := t1\<rparr>)"
      and t1: "ticks s \<le> t1" and tr1: "transferred (a, 0) p (b, 0) (mem s) M1" by blast
    have sz: "Size (s\<lparr>mem := M1, ticks := t1\<rparr>) this - p = n - p" using n by (simp add: Size_def)
    from step2[OF t1 tr1, of "uninitialized_move_n T (a, p) (n - p) (b, p + 1)"]
      uninitialized_move_n_ok[OF _ pre2]
    show ?thesis using True 1 sz by simp
  next
    case False
    from uninitialized_copy_n_ok[OF cm pre1]
    obtain M1 t1 where 1: "uninitialized_copy_n T (a, 0) p (b, 0) s = Ok () (s\<lparr>mem := M1, ticks := t1\<rparr>)"
      and t1: "ticks s \<le> t1" and tr1: "transferred (a, 0) p (b, 0) (mem s) M1" by blast
    have sz: "Size (s\<lparr>mem := M1, ticks := t1\<rparr>) this - p = n - p" using n by (simp add: Size_def)
    from step2[OF t1 tr1, of "uninitialized_copy_n T (a, p) (n - p) (b, p + 1)"]
      uninitialized_copy_n_ok[OF _ pre2]
    show ?thesis using False 1 sz by simp
  qed
qed

lemma Emplace_grow:
  assumes wh: "wf_heap s" and w: "wf_vec s this" and cm: "calm T s" and v: "arg_value s values = Some v"
    and eq: "Size s this = Capacity s this"
    and a: "ab = raw_buffer (vec_data (vecs s this))" and n: "n = Size s this"
    and p: "p < n" "p < 2 ^ 31" and c': "c' = n * 2" and b: "b = next_addr s" and ft: "fits T c'"
  shows "\<exists>M t. Emplace T this (ab, p) values s =
           Ok (b, p)
              (s\<lparr>blocks := ((blocks s)(b \<mapsto> c'))(ab := None), mem := M, next_addr := Suc b,
                 vecs := (vecs s)(this := \<lparr>vec_data = \<lparr>raw_buffer = b, raw_capacity = c'\<rparr>,
                                           vec_size = Suc n\<rparr>),
                 ticks := t\<rparr>) \<and>
           ticks s \<le> t \<and> M (b, p) = Some v \<and> (\<forall>i. i < p \<longrightarrow> M (b, i) = mem s (ab, i)) \<and>
           (\<forall>i. p \<le> i \<and> i < n \<longrightarrow> M (b, Suc i) = mem s (ab, i)) \<and>
           (\<forall>i. n < i \<longrightarrow> M (b, i) = None) \<and> (\<forall>i. M (ab, i) = None) \<and>
           (\<forall>q. fst q \<noteq> ab \<and> fst q \<noteq> b \<longrightarrow> M q = mem s q)"
proof -
  have cap: "raw_capacity (vec_data (vecs s this)) = n" using eq n by (simp add: Size_def Capacity_def)
  have sz: "vec_size (vecs s this) = n" using n by (simp add: Size_def)
  note W = wf_vecD[OF w a cap[symmetric] sz[symmetric]]
  have n0: "n \<noteq> 0" using p by simp
  have fresh: "blocks s b = None" "\<And>i. mem s (b, i) = None" "0 < b" "blocks s nullptr = None"
    using wh b by (auto simp: wf_heap_def)
  have ab: "ab \<noteq> b" "ab \<noteq> 0" using W(3) fresh n0 by (auto intro: ccontr)
  have c'0: "c' \<noteq> 0" "n < c'" "p < c'" using c' p by auto
  have nf: "\<not> fails T (ticks s)" "\<not> fails T (Suc (ticks s))" using cm by (auto simp: calm_def)
  let ?nd = "\<lparr>raw_buffer = b, raw_capacity = c'\<rparr>"
  let ?s1 = "s\<lparr>blocks := (blocks s)(b \<mapsto> c'), next_addr := Suc b, ticks := Suc (ticks s)\<rparr>"
  have al: "RawMemory_sized T c' s = Ok ?nd ?s1"
    using nf c'0 b ft by (simp add: RawMemory_sized_def Allocate_ok)
  let ?s2 = "?s1\<lparr>mem := (mem s)((b, p) := Some v), ticks := Suc (Suc (ticks s))\<rparr>"
  have co: "construct T (b, p) values ?s1 = Ok () ?s2"
    using nf c'0 arg_value_frame[OF v fresh(1), where n = c' and x = "Suc b" and t = "Suc (ticks s)"]
    by (simp add: construct_ok[where c = c' and v = v])
  have cm2: "calm T ?s2" using cm by (auto intro: calm_later)
  have "\<exists>M t.
           (if nothrow_move_constructible T \<or> \<not> copy_constructible T then
              and_then (uninitialized_move_n T (ab, 0) p (b, 0) ?s2) (\<lambda>_ s3.
                uninitialized_move_n T (ab, p) (Size s3 this - p) (b, p + 1) s3)
            else
              and_then (uninitialized_copy_n T (ab, 0) p (b, 0) ?s2) (\<lambda>_ s3.
                uninitialized_copy_n T (ab, p) (Size s3 this - p) (b, p + 1) s3))
           = Ok () (?s2\<lparr>mem := M, ticks := t\<rparr>) \<and>
           ticks ?s2 \<le> t \<and> (\<forall>i. i < p \<longrightarrow> M (b, i) = mem ?s2 (ab, i)) \<and>
           (\<forall>i. p \<le> i \<and> i < n \<longrightarrow> M (b, Suc i) = mem ?s2 (ab, i)) \<and> M (b, p) = mem ?s2 (b, p) \<and>
           (\<forall>i. i < n \<longrightarrow> M (ab, i) \<noteq> None) \<and>
           (\<forall>q. (fst q \<noteq> ab \<and> fst q \<noteq> b) \<or> n < snd q \<longrightarrow> M q = mem ?s2 q) \<and>
           (\<forall>i. n \<le> i \<longrightarrow> M (ab, i) = mem ?s2 (ab, i))"
  proof (rule transfer_around_ok[OF cm2 _ p(1) ab(1), where ca = n and cb = c'])
    show "n = Size ?s2 this" using sz by (simp add: Size_def)
    show "blocks ?s2 ab = Some n" using W(3) n0 ab by simp
    show "blocks ?s2 b = Some c'" by simp
    show "\<forall>i. i < n \<longrightarrow> mem ?s2 (ab, i) \<noteq> None" using W(4) ab by simp
  qed (use c'0 in auto)
  then obtain M t where tr: "(if nothrow_move_constructible T \<or> \<not> copy_constructible T then
              and_then (uninitialized_move_n T (ab, 0) p (b, 0) ?s2) (\<lambda>_ s3.
                uninitialized_move_n T (ab, p) (Size s3 this - p) (b, p + 1) s3)
            else
              and_then (uninitialized_copy_n T (ab, 0) p (b, 0) ?s2) (\<lambda>_ s3.
                uninitialized_copy_n T (ab, p) (Size s3 this - p) (b, p + 1) s3))
           = Ok () (?s2\<lparr>mem := M, ticks := t\<rparr>)"
    and t: "ticks ?s2 \<le> t"
    and R1: "\<forall>i. i < p \<longrightarrow> M (b, i) = mem ?s2 (ab, i)"
    and R2: "\<forall>i. p \<le> i \<and> i < n \<longrightarrow> M (b, Suc i) = mem ?s2 (ab, i)"
    and R3: "M (b, p) = mem ?s2 (b, p)"
    and R4: "\<forall>i. i < n \<longrightarrow> M (ab, i) \<noteq> None"
    and R5: "\<forall>q. (fst q \<noteq> ab \<and> fst q \<noteq> b) \<or> n < snd q \<longrightarrow> M q = mem ?s2 q"
    and R6: "\<forall>i. n \<le> i \<longrightarrow> M (ab, i) = mem ?s2 (ab, i)"
    by blast
  have M1: "M (b, i) = mem s (ab, i)" if "i < p" for i using R1 that ab by simp
  have M2: "M (b, Suc i) = mem s (ab, i)" if "p \<le> i" "i < n" for i using R2 that ab by simp
  have M3: "M (b, p) = Some v" using R3 by simp
  have M4: "M (ab, i) \<noteq> None" if "i < n" for i using R4 that by simp
  have M5: "M q = ((mem s)((b, p) := Some v)) q" if "(fst q \<noteq> ab \<and> fst q \<noteq> b) \<or> n < snd q" for q
    using R5[rule_format, OF that] by simp
  have M6: "M (ab, i) = mem s (ab, i)" if "n \<le> i" for i using R6 that ab by simp
  let ?s3 = "?s2\<lparr>mem := M, ticks := t\<rparr>"
  let ?s4 = "?s3\<lparr>mem := kill (ab, 0) n M\<rparr>"
  have de: "destroy_n (ab, 0) n ?s3 = Ok () ?s4"
    using W(3) M4 ab n0 by (intro destroy_n_ok'[where c = n, THEN trans]) (auto)
  let ?s5 = "set_data this ?nd ?s4"
  have dl: "Deallocate ab ?s5 = Ok () (?s5\<lparr>blocks := (blocks ?s5)(ab := None)\<rparr>)"
    using W(3) ab n0 by (intro Deallocate_ok) (auto simp: set_data_def)
  have old: "vec_data (vecs ?s4 this) = \<lparr>raw_buffer = ab, raw_capacity = n\<rparr>"
    using a cap by simp
  have f1: "nat (to_int (snd (ab, p))) = p" "(to_int (snd (ab, p)) < 0) = False"
    using p by (simp_all add: to_int_small)
  have f3: "((ab, p) = (ab, n)) = False" "(fst (ab, p) \<noteq> fst (Vector_begin s this)) = False"
    "(Size s this < Suc p) = False" "(Capacity s this < Capacity s this) = False"
    "(Capacity s this < Suc p) = False"
    using p a sz eq n by (auto simp: Vector_end_def Vector_begin_def GetAddress_def ptr_add_def)
  have f7: "ptr_add (Vector_begin s this) p = (ab, p)" "Vector_end s this = (ab, n)"
    using a sz by (simp_all add: Vector_end_def Vector_begin_def GetAddress_def ptr_add_def ptr_sub_def)
  have p1: "ptr_add (b, 0) p = (b, p)" "GetAddress ?nd = (b, 0)" "ptr_add (b, 0) (p + 1) = (b, p + 1)"
    "Vector_begin ?s2 this = (ab, 0)"
    using sz a by (simp_all add: GetAddress_def ptr_add_def Vector_begin_def)
  have p3: "Vector_begin ?s3 this = (ab, 0)" "Size ?s3 this = n"
    using sz a by (simp_all add: GetAddress_def Vector_begin_def Size_def)
  have p5: "RawMemory_destroy \<lparr>raw_buffer = ab, raw_capacity = n\<rparr> ?s5 =
              Ok () (?s5\<lparr>blocks := (blocks ?s5)(ab := None)\<rparr>)"
    using dl by (simp add: RawMemory_destroy_def)
  have cexp: "(if Capacity s this = 0 then 1 else Capacity s this * 2) = c'"
    using c' cap n0 by (simp add: Capacity_def)
  let ?s6 = "?s5\<lparr>blocks := (blocks ?s5)(ab := None)\<rparr>"
  have p6: "ptr_add (Vector_begin (set_size this (Suc n) ?s6) this) p = (b, p)"
    "Suc (Size ?s6 this) = Suc n"
    using sz by (simp_all add: Vector_begin_def GetAddress_def ptr_add_def Size_def set_data_def set_size_def)
  have res: "Emplace T this (ab, p) values s = Ok (b, p) (set_size this (Suc n) ?s6)"
    unfolding Emplace_def Let_def with_new_data_def
    apply (simp only: f1 f7 f3 eq if_True if_False cexp)
    apply (simp only: al and_then.simps p1 co tr p3 de old result.case p5)
    apply (simp only: p6)
    done
  have K1: "\<And>i. i < p \<Longrightarrow> kill (ab, 0) n M (b, i) = mem s (ab, i)"
    using M1 ab by (simp add: kill_def)
  have K2: "kill (ab, 0) n M (b, p) = Some v" using M3 ab by (simp add: kill_def)
  have K2': "\<And>i. p \<le> i \<Longrightarrow> i < n \<Longrightarrow> kill (ab, 0) n M (b, Suc i) = mem s (ab, i)"
    using M2 ab by (simp add: kill_def)
  have K3: "\<And>i. n < i \<Longrightarrow> kill (ab, 0) n M (b, i) = None"
    using M5 ab fresh(2) p by (simp add: kill_def)
  have K4: "\<And>i. kill (ab, 0) n M (ab, i) = None"
    using M6 W(5) ab by (simp add: kill_def)
  have K5: "\<And>q. fst q \<noteq> ab \<Longrightarrow> fst q \<noteq> b \<Longrightarrow> kill (ab, 0) n M q = mem s q"
    using M5 by (auto simp: kill_def)
  show ?thesis
    apply (rule exI[where x = "kill (ab, 0) n M"], rule exI[where x = t])
    using res t K1 K2 K2' K3 K4 K5 by (simp add: set_data_def set_size_def Vector_update_all)
qed

lemma Emplace_ok:
  assumes w: "wf_state s this" and cm: "calm T s" and p: "p \<le> Size s this" "p = Size s this \<or> p < 2 ^ 31"
    and ft: "Size s this = Capacity s this \<Longrightarrow> fits T (max 1 (Capacity s this * 2))"
  shows "\<exists>s'. Emplace T this (ptr_add (Vector_begin s this) p) (ByValue v) s =
                 Ok (ptr_add (Vector_begin s' this) p) s' \<and>
           wf_state s' this \<and> calm T s' \<and> Size s' this = Suc (Size s this) \<and>
           Vector_index s' this p = Some v \<and>
           (\<forall>i. i < p \<longrightarrow> Vector_index s' this i = Vector_index s this i) \<and>
           (\<forall>i. p \<le> i \<and> i < Size s this \<longrightarrow> Vector_index s' this (Suc i) = Vector_index s this i) \<and>
           (\<forall>r. r \<noteq> this \<longrightarrow> vecs s' r = vecs s r)"
proof -
  from w have wh: "wf_heap s" and wv: "wf_vec s this" by (auto simp: wf_state_def)
  define ab where "ab = raw_buffer (vec_data (vecs s this))"
  define n where "n = Size s this"
  define c where "c = raw_capacity (vec_data (vecs s this))"
  have sz: "vec_size (vecs s this) = n" using n_def by (simp add: Size_def)
  note W = wf_vecD[OF wv ab_def c_def sz[symmetric]]
  have pos: "ptr_add (Vector_begin s this) p = (ab, p)"
    by (simp add: ptr_add_def Vector_begin_def GetAddress_def ab_def)
  have idx: "Vector_index s this i = mem s (ab, i)" if "i < n" for i
    using Vector_index_wf[OF wv, of i] that n_def ab_def by simp
  show ?thesis
  proof (cases "p = n")
    case True
    from EmplaceBack_ok[OF w cm _ ft, of "ByValue v" v]
    obtain s' where r: "EmplaceBack T this (ByValue v) s = Ok (ptr_add (Vector_begin s' this) (Size s this)) s'"
      and post: "wf_state s' this" "calm T s'" "Size s' this = Suc (Size s this)"
        "\<forall>i. i < Size s this \<longrightarrow> Vector_index s' this i = Vector_index s this i"
        "Vector_index s' this (Size s this) = Some v" "\<forall>r. r \<noteq> this \<longrightarrow> vecs s' r = vecs s r"
      by auto
    have e: "(ab, p) = Vector_end s this"
      using True sz by (simp add: Vector_end_def GetAddress_def ptr_add_def ab_def)
    have "Emplace T this (ab, p) (ByValue v) s = Ok (ptr_sub (Vector_end s' this) 1) s'"
      using e r post(3) by (simp add: Emplace_def)
    moreover have "ptr_sub (Vector_end s' this) 1 = ptr_add (Vector_begin s' this) p"
      using post(3) True n_def
      by (simp add: ptr_sub_def ptr_add_def Vector_end_def Vector_begin_def GetAddress_def Size_def)
    ultimately show ?thesis using post True n_def pos by auto
  next
    case False
    with p n_def have pn: "p < n" "p < 2 ^ 31" by auto
    show ?thesis
    proof (cases "n < c")
      case True
      then have lt: "n < Capacity s this" by (simp add: c_def Capacity_def)
      from Emplace_in_place_ok[OF wv ab_def n_def pn lt cm, of v]
      obtain M t where r: "Emplace T this (ab, p) (ByValue v) s =
            Ok (ab, p) (s\<lparr>mem := M, vecs := (vecs s)(this := (vecs s this)\<lparr>vec_size := Suc n\<rparr>),
                        ticks := t\<rparr>)"
        and t: "ticks s \<le> t" and M1: "M (ab, p) = Some v" and M2: "\<And>i. i < p \<Longrightarrow> M (ab, i) = mem s (ab, i)"
        and M3: "\<And>i. p \<le> i \<Longrightarrow> i < n \<Longrightarrow> M (ab, Suc i) = mem s (ab, i)"
        and M4: "\<And>q. fst q \<noteq> ab \<or> n < snd q \<Longrightarrow> M q = mem s q"
        by blast
      let ?s' = "s\<lparr>mem := M, vecs := (vecs s)(this := (vecs s this)\<lparr>vec_size := Suc n\<rparr>), ticks := t\<rparr>"
      have c0: "c \<noteq> 0" using True by simp
      have bl: "blocks s ab = Some c" "ab < next_addr s" using W(3)[OF c0] by auto
      have live: "M (ab, i) \<noteq> None" if "i < Suc n" for i
      proof -
        consider "i < p" | "i = p" | "p < i"  by linarith
        then show ?thesis
        proof cases
          case 1 then show ?thesis using M2[of i] W(4)[of i] pn by simp
        next
          case 2 then show ?thesis using M1 by simp
        next
          case 3
          then have "M (ab, Suc (i - 1)) = mem s (ab, i - 1)" using that by (intro M3) auto
          then show ?thesis using 3 W(4)[of "i - 1"] that by simp
        qed
      qed
      have wh': "wf_heap ?s'" using wh bl M4 unfolding wf_heap_def by auto
      have wv': "wf_vec ?s' this"
        unfolding wf_vec_def using True bl live M4 W(5) c_def ab_def by (auto simp: Let_def)
      have i0: "Vector_index ?s' this i = M (ab, i)" if "i < Suc n" for i
        using that bl True ab_def
        by (simp add: Vector_index_def obj_def in_block_def Vector_begin_def GetAddress_def ptr_add_def Size_def)
      have 1: "Vector_index ?s' this p = Some v" using i0[of p] pn M1 by simp
      have 2: "\<forall>i. i < p \<longrightarrow> Vector_index ?s' this i = Vector_index s this i"
        using i0 idx M2 pn by auto
      have 3: "\<forall>i. p \<le> i \<and> i < Size s this \<longrightarrow> Vector_index ?s' this (Suc i) = Vector_index s this i"
        using i0 idx M3 n_def by auto
      have 4: "calm T ?s'" using cm t by (auto intro: calm_later)
      show ?thesis
        apply (rule exI[where x = ?s'])
        using r wh' wv' 1 2 3 4 pos n_def ab_def
        by (simp add: wf_state_def Size_def ptr_add_def Vector_begin_def GetAddress_def)
    next
      case False
      then have eq: "Size s this = Capacity s this" using W(1) n_def c_def by (simp add: Size_def Capacity_def)
      have cn: "c = n" using False W(1) by simp
      have n0: "n \<noteq> 0" using pn by simp
      define b where "b = next_addr s"
      have ft': "fits T (n * 2)" using ft[OF eq] eq n_def n0 by (simp add: max_def)
      from Emplace_grow[OF wh wv cm _ eq ab_def n_def pn refl b_def ft', of "ByValue v" v]
      obtain M t where r: "Emplace T this (ab, p) (ByValue v) s =
           Ok (b, p)
              (s\<lparr>blocks := ((blocks s)(b \<mapsto> n * 2))(ab := None), mem := M, next_addr := Suc b,
                 vecs := (vecs s)(this := \<lparr>vec_data = \<lparr>raw_buffer = b, raw_capacity = n * 2\<rparr>,
                                           vec_size = Suc n\<rparr>),
                 ticks := t\<rparr>)"
        and t: "ticks s \<le> t" and M1: "M (b, p) = Some v" and M2: "\<And>i. i < p \<Longrightarrow> M (b, i) = mem s (ab, i)"
        and M3: "\<And>i. p \<le> i \<Longrightarrow> i < n \<Longrightarrow> M (b, Suc i) = mem s (ab, i)"
        and M4: "\<And>i. n < i \<Longrightarrow> M (b, i) = None" and M5: "\<And>i. M (ab, i) = None"
        and M6: "\<And>q. fst q \<noteq> ab \<Longrightarrow> fst q \<noteq> b \<Longrightarrow> M q = mem s q"
        by auto
      let ?s' = "s\<lparr>blocks := ((blocks s)(b \<mapsto> n * 2))(ab := None), mem := M, next_addr := Suc b,
                 vecs := (vecs s)(this := \<lparr>vec_data = \<lparr>raw_buffer = b, raw_capacity = n * 2\<rparr>,
                                           vec_size = Suc n\<rparr>),
                 ticks := t\<rparr>"
      have fresh: "blocks s b = None" "0 < b" "blocks s nullptr = None"
        "\<And>a i. b < a \<Longrightarrow> blocks s a = None \<and> mem s (a, i) = None"
        using wh b_def by (auto simp: wf_heap_def)
      have ab: "ab \<noteq> b" using W(3) fresh n0 cn by auto
      have live: "M (b, i) \<noteq> None" if "i < Suc n" for i
      proof -
        consider "i < p" | "i = p" | "p < i"  by linarith
        then show ?thesis
        proof cases
          case 1 then show ?thesis using M2[of i] W(4)[of i] pn by simp
        next
          case 2 then show ?thesis using M1 by simp
        next
          case 3
          then have "M (b, Suc (i - 1)) = mem s (ab, i - 1)" using that by (intro M3) auto
          then show ?thesis using 3 W(4)[of "i - 1"] that by simp
        qed
      qed
      have wh': "wf_heap ?s'"
        unfolding wf_heap_def using fresh ab M6 M5 by (auto simp: Suc_le_eq)
      have wv': "wf_vec ?s' this"
        unfolding wf_vec_def using n0 ab live M4 by (auto simp: Let_def)
      have i0: "Vector_index ?s' this i = M (b, i)" if "i < Suc n" for i
        using that ab n0
        by (simp add: Vector_index_def obj_def in_block_def Vector_begin_def GetAddress_def ptr_add_def Size_def)
      have 1: "Vector_index ?s' this p = Some v" using i0[of p] pn M1 by simp
      have 2: "\<forall>i. i < p \<longrightarrow> Vector_index ?s' this i = Vector_index s this i"
        using i0 idx M2 pn by auto
      have 3: "\<forall>i. p \<le> i \<and> i < Size s this \<longrightarrow> Vector_index ?s' this (Suc i) = Vector_index s this i"
        using i0 idx M3 n_def by auto
      have 4: "calm T ?s'" using cm t by (auto intro: calm_later)
      show ?thesis
        apply (rule exI[where x = ?s'])
        using r wh' wv' 1 2 3 4 pos n_def
        by (simp add: wf_state_def Size_def ptr_add_def Vector_begin_def GetAddress_def)
    qed
  qed
qed

section \<open>Inserting and erasing\<close>

lemma wf_spare_vector: "wf_state spare_vector 0"
  by (simp add: wf_state_def wf_heap_def wf_vec_def spare_vector_def Let_def)

lemma wf_huge_vector: "wf_state huge_vector 0"
  by (simp add: wf_state_def wf_heap_def wf_vec_def huge_vector_def Let_def)

lemma spare_vector_index:
  "Vector_index spare_vector 0 0 = Some 1" "Vector_index spare_vector 0 (Suc 0) = Some 2"
  "Vector_index spare_vector 0 2 = Some 3" "Vector_index spare_vector 0 (Suc (Suc 0)) = Some 3"
  "Size spare_vector 0 = 3" "Capacity spare_vector 0 = 4"
  "Vector_begin spare_vector 0 = (1, 0)" "ticks spare_vector = 0"
  by (simp_all add: spare_vector_def Vector_index_def obj_def in_block_def Vector_begin_def
      GetAddress_def ptr_add_def Size_def Capacity_def)

text \<open>
  C8. On the in-place path (a position before the end, size below capacity), when the
  last element has been moved into the slot past the end and the range has been shifted,
  and then the constructor of the new value throws: the exception reaches the caller,
  the size and the capacity are unchanged, but the memory is not as before the call. The
  slot at index \<open>size\<close> holds a live object (the former last element), so the vector is
  no longer well-formed; the slot at the position holds a moved-from object, and the
  elements after the position are the former elements one slot to the right.
\<close>

theorem Emplace_in_place_throw:
  assumes w: "wf_state s this" and p: "p < Size s this" "p < 2 ^ 31"
    and lt: "Size s this < Capacity s this"
    and nf: "\<forall>k. k < (if nothrow_move_constructible T then 0 else 1) + (Size s this - 1 - p)
                \<longrightarrow> \<not> fails T (ticks s + k)"
    and f: "fails T (ticks s + (if nothrow_move_constructible T then 0 else 1) + (Size s this - 1 - p))"
  shows "\<exists>s'. Emplace T this (ptr_add (Vector_begin s this) p) values s = Throw ElemThrow s' \<and>
           vecs s' = vecs s \<and> blocks s' = blocks s \<and> mem s' \<noteq> mem s \<and> \<not> wf_vec s' this \<and>
           obj s' (Vector_end s' this) = Vector_index s this (Size s this - 1) \<and>
           obj s' (Vector_end s' this) \<noteq> None \<and>
           Vector_index s' this p = map_option (moved_from T) (Vector_index s this p) \<and>
           (\<forall>i. i < p \<longrightarrow> Vector_index s' this i = Vector_index s this i) \<and>
           (\<forall>i. p < i \<and> i < Size s this \<longrightarrow> Vector_index s' this i = Vector_index s this (i - 1))"
proof -
  from w have wv: "wf_vec s this" by (simp add: wf_state_def)
  define a where "a = raw_buffer (vec_data (vecs s this))"
  define n where "n = Size s this"
  let ?c = "raw_capacity (vec_data (vecs s this))"
  let ?mc = "if nothrow_move_constructible T then 0 else (1::nat)"
  have sz: "vec_size (vecs s this) = n" using n_def by (simp add: Size_def)
  note W = wf_vecD[OF wv a_def refl sz[symmetric]]
  have pn: "p < n" using p n_def by simp
  have ltn: "n < Capacity s this" using lt n_def by simp
  have c: "blocks s a = Some ?c" "n < ?c" using W(3) lt n_def by (auto simp: Capacity_def)
  from W(4)[of "n - 1"] pn obtain x where x: "mem s (a, n - 1) = Some x" by auto
  let ?m1 = "(mem s)((a, n - 1) := Some (moved_from T x), (a, n) := Some x)"
  let ?t2 = "ticks s + ?mc + (n - 1 - p)"
  define s2 where "s2 = s\<lparr>mem := shr T a p (n - 1 - p) ?m1, ticks := ?t2\<rparr>"
  have nf': "\<forall>k. k < ?mc + (n - 1 - p) \<longrightarrow> \<not> fails T (ticks s + k)" using nf n_def by simp
  have E: "Emplace T this (a, p) values s =
           and_then (assign_temporary T (a, p) values s2)
             (\<lambda>_ s6. Ok (a, p) (set_size this (Suc n) s6))"
    by (rule Emplace_in_place_steps[OF wv a_def n_def pn p(2) ltn x nf' s2_def])
  have "fails T (ticks s2)" using f n_def by (simp add: s2_def)
  then have at: "assign_temporary T (a, p) values s2 = Throw ElemThrow (s2\<lparr>ticks := Suc (ticks s2)\<rparr>)"
    by (rule assign_temporary_throw)
  let ?s' = "s2\<lparr>ticks := Suc (ticks s2)\<rparr>"
  have pos: "ptr_add (Vector_begin s this) p = (a, p)"
    by (simp add: ptr_add_def Vector_begin_def GetAddress_def a_def)
  have r: "Emplace T this (ptr_add (Vector_begin s this) p) values s = Throw ElemThrow ?s'"
    unfolding pos E at by simp
  have idx: "Vector_index s this i = mem s (a, i)" if "i < n" for i
    using Vector_index_wf[OF wv, of i] that n_def a_def by simp
  have idx': "Vector_index ?s' this i = mem ?s' (a, i)" if "i < n" for i
    using that c sz a_def
    by (simp add: s2_def Vector_index_def obj_def in_block_def Vector_begin_def GetAddress_def
        ptr_add_def Size_def)
  have e: "Vector_end ?s' this = (a, n)"
    using sz a_def by (simp add: s2_def Vector_end_def GetAddress_def ptr_add_def)
  have m_end: "mem ?s' (a, n) = Some x" using pn by (auto simp: s2_def shr_def)
  have 1: "obj ?s' (Vector_end ?s' this) = Vector_index s this (Size s this - 1)"
    using m_end c x idx[of "n - 1"] pn n_def unfolding e
    by (simp add: obj_def in_block_def s2_def)
  have 2: "mem ?s' \<noteq> mem s" using m_end W(5)[of n] by auto
  have 3: "\<not> wf_vec ?s' this"
    using m_end sz a_def by (auto simp: wf_vec_def Let_def s2_def)
  have 4: "Vector_index ?s' this p = map_option (moved_from T) (Vector_index s this p)"
    using idx[OF pn] idx'[OF pn] pn x by (auto simp: s2_def shr_def)
  have 5: "\<forall>i. i < p \<longrightarrow> Vector_index ?s' this i = Vector_index s this i"
    using idx idx' pn by (auto simp: s2_def shr_def)
  have 6: "\<forall>i. p < i \<and> i < Size s this \<longrightarrow> Vector_index ?s' this i = Vector_index s this (i - 1)"
    using idx idx' pn n_def by (auto simp: s2_def shr_def)
  have 7: "obj ?s' (Vector_end ?s' this) \<noteq> None"
    using m_end c unfolding e by (simp add: obj_def in_block_def s2_def)
  show ?thesis
    apply (rule exI[where x = ?s'])
    using r 1 2 3 4 5 6 7 by (simp add: s2_def)
qed

theorem Emplace_in_place_throw_witness:
  "\<exists>s'. Emplace (T_fail_at 2) 0 (1, 0) (ByValue 9) spare_vector = Throw ElemThrow s' \<and>
        Size s' 0 = 3 \<and> \<not> wf_vec s' 0 \<and> obj s' (1, 3) = Some 3 \<and>
        Vector_index s' 0 0 = Some 1 \<and> Vector_index s' 0 1 = Some 1 \<and> Vector_index s' 0 2 = Some 2"
proof -
  have h: "\<forall>k. k < (if nothrow_move_constructible (T_fail_at 2) then 0 else 1) + (Size spare_vector 0 - 1 - 0)
                \<longrightarrow> \<not> fails (T_fail_at 2) (ticks spare_vector + k)"
    "fails (T_fail_at 2) (ticks spare_vector + (if nothrow_move_constructible (T_fail_at 2) then 0 else 1)
       + (Size spare_vector 0 - 1 - 0))"
    by (simp_all add: T_fail_at_def T_int_def spare_vector_index)
  from Emplace_in_place_throw[OF wf_spare_vector _ _ _ h, of "ByValue 9"]
  obtain s' where s': "Emplace (T_fail_at 2) 0 (ptr_add (Vector_begin spare_vector 0) 0) (ByValue 9) spare_vector
        = Throw ElemThrow s'" "vecs s' = vecs spare_vector" "\<not> wf_vec s' 0"
     "obj s' (Vector_end s' 0) = Vector_index spare_vector 0 (Size spare_vector 0 - 1)"
     "Vector_index s' 0 0 = map_option (moved_from (T_fail_at 2)) (Vector_index spare_vector 0 0)"
     "\<forall>i. 0 < i \<and> i < Size spare_vector 0 \<longrightarrow> Vector_index s' 0 i = Vector_index spare_vector 0 (i - 1)"
    by (auto simp: spare_vector_index)
  have "Vector_end s' 0 = (1, 3)"
    using s'(2) by (simp add: Vector_end_def GetAddress_def ptr_add_def spare_vector_def)
  moreover have "Size s' 0 = 3" using s'(2) by (simp add: Size_def spare_vector_def)
  moreover have "Vector_index s' 0 1 = Some 1" "Vector_index s' 0 2 = Some 2"
    using s'(6) by (simp_all add: spare_vector_index)
  ultimately show ?thesis
    using s' by (auto simp: spare_vector_index ptr_add_def T_fail_at_def T_int_def)
qed

text \<open>
  Inserting a value that does not alias the vector, at a position \<open>p \<le> size\<close> that is
  the end or lies below \<open>2\<^sup>3\<^sup>1\<close>, when nothing fails and the request for a new block,
  if one is made, fits: the call returns the position of
  the new element in the (possibly new) buffer, the size grows by one, the element at
  \<open>p\<close> is the value, the elements before \<open>p\<close> are unchanged and the elements formerly at
  \<open>[p, size)\<close> are at \<open>[p + 1, size + 1)\<close> in the same order; the vector stays
  well-formed.
\<close>

theorem Insert_value:
  assumes "wf_state s this" and "calm T s" and "p \<le> Size s this" and "p = Size s this \<or> p < 2 ^ 31"
    and "Size s this = Capacity s this \<Longrightarrow> fits T (max 1 (Capacity s this * 2))"
  shows "\<exists>s'. Insert T this (ptr_add (Vector_begin s this) p) (ByValue v) s =
                 Ok (ptr_add (Vector_begin s' this) p) s' \<and>
           wf_state s' this \<and> Size s' this = Suc (Size s this) \<and>
           Vector_index s' this p = Some v \<and>
           (\<forall>i. i < p \<longrightarrow> Vector_index s' this i = Vector_index s this i) \<and>
           (\<forall>i. p \<le> i \<and> i < Size s this \<longrightarrow> Vector_index s' this (Suc i) = Vector_index s this i)"
  using Emplace_ok[OF assms, of v] unfolding Insert_def by blast

lemma calm_T_int: "calm T_int s"
  by (simp add: calm_def T_int_def)

theorem Insert_value_witness:
  "\<exists>s'. Insert T_int 0 (1, 1) (ByValue 9) spare_vector = Ok (ptr_add (Vector_begin s' 0) 1) s' \<and>
        Size s' 0 = 4 \<and> Vector_index s' 0 0 = Some 1 \<and> Vector_index s' 0 1 = Some 9 \<and>
        Vector_index s' 0 2 = Some 2 \<and> Vector_index s' 0 3 = Some 3"
proof -
  from Insert_value[OF wf_spare_vector calm_T_int, of 1 9]
  obtain s' where s': "Insert T_int 0 (ptr_add (Vector_begin spare_vector 0) 1) (ByValue 9) spare_vector =
                 Ok (ptr_add (Vector_begin s' 0) 1) s'" "Size s' 0 = Suc (Size spare_vector 0)"
      "Vector_index s' 0 1 = Some 9"
      "\<forall>i. i < 1 \<longrightarrow> Vector_index s' 0 i = Vector_index spare_vector 0 i"
      "\<forall>i. 1 \<le> i \<and> i < Size spare_vector 0 \<longrightarrow> Vector_index s' 0 (Suc i) = Vector_index spare_vector 0 i"
    by (auto simp: spare_vector_index)
  have "Vector_index s' 0 (Suc (Suc 0)) = Some 2" "Vector_index s' 0 (Suc 2) = Some 3"
    using s'(5)[rule_format, of "Suc 0"] s'(5)[rule_format, of 2] by (simp_all add: spare_vector_index)
  then have "Vector_index s' 0 2 = Some 2" "Vector_index s' 0 3 = Some 3"
    by (simp_all add: numeral_2_eq_2 numeral_3_eq_3)
  moreover have "Vector_index s' 0 0 = Some 1" using s'(4) by (simp add: spare_vector_index)
  ultimately show ?thesis using s' by (auto simp: spare_vector_index ptr_add_def)
qed

text \<open>
  C3 at the failing input: the vector holds \<open>[1, 2, 3]\<close> with capacity 4 and the call is
  \<^verbatim>\<open>v.Insert(v.begin(), v[2])\<close>, the value passed by \<^verbatim>\<open>const T&\<close>. The in-place path
  shifts the elements first and reads the argument afterwards, when the slot it refers
  to already holds the former \<open>v[1]\<close>: the element at the position is then 2, not the
  value 3 that was passed.
\<close>

theorem Insert_aliased_argument:
  "Vector_index spare_vector 0 2 = Some 3 \<and>
   (\<exists>r s'. Insert T_int 0 (Vector_begin spare_vector 0)
              (ByRef (ptr_add (Vector_begin spare_vector 0) 2)) spare_vector = Ok r s' \<and>
           Size s' 0 = 4 \<and> Vector_index s' 0 0 = Some 2 \<and> Vector_index s' 0 1 = Some 1 \<and>
           Vector_index s' 0 2 = Some 2 \<and> Vector_index s' 0 3 = Some 3)"
proof -
  have wv: "wf_vec spare_vector 0" using wf_spare_vector by (simp add: wf_state_def)
  define s2 where "s2 = spare_vector\<lparr>mem := shr T_int 1 0 (3 - 1 - 0)
        ((mem spare_vector)((1, 3 - 1) := Some (moved_from T_int 3), (1, 3) := Some 3)),
        ticks := ticks spare_vector + (if nothrow_move_constructible T_int then 0 else 1) + (3 - 1 - 0)\<rparr>"
  have E: "Emplace T_int 0 (1, 0) (ByRef (1, 2)) spare_vector =
           and_then (assign_temporary T_int (1, 0) (ByRef (1, 2)) s2)
             (\<lambda>_ s6. Ok (1, 0) (set_size 0 (Suc 3) s6))"
  proof (rule Emplace_in_place_steps[OF wv _ _ _ _ _ _ _ s2_def])
    show "1 = raw_buffer (vec_data (vecs spare_vector 0))" by (simp add: spare_vector_def)
    show "3 = Size spare_vector 0" by (simp add: spare_vector_index)
    show "mem spare_vector (1, 3 - 1) = Some 3" by (simp add: spare_vector_def)
    show "3 < Capacity spare_vector 0" by (simp add: spare_vector_index)
    show "\<forall>k. k < (if nothrow_move_constructible T_int then 0 else 1) + (3 - 1 - 0)
            \<longrightarrow> \<not> fails T_int (ticks spare_vector + k)" by (simp add: T_int_def)
  qed simp_all
  have at: "assign_temporary T_int (1, 0) (ByRef (1, 2)) s2 =
              Ok () (s2\<lparr>mem := (mem s2)((1, 0) := Some 2), ticks := Suc (Suc (ticks s2))\<rparr>)"
    by (simp add: assign_temporary_def fallible_def obj_def in_block_def put_def s2_def shr_def
        T_int_def spare_vector_def)
  have "Insert T_int 0 (Vector_begin spare_vector 0)
              (ByRef (ptr_add (Vector_begin spare_vector 0) 2)) spare_vector =
        Ok (1, 0) (set_size 0 (Suc 3) (s2\<lparr>mem := (mem s2)((1, 0) := Some 2), ticks := Suc (Suc (ticks s2))\<rparr>))"
  proof -
    have pa: "ptr_add (1, 0) 2 = (1, 2)"
      by (simp add: ptr_add_def)
    show ?thesis unfolding Insert_def spare_vector_index(7) pa E at by simp
  qed
  moreover have "Size (set_size 0 (Suc 3) (s2\<lparr>mem := (mem s2)((1, 0) := Some 2), ticks := Suc (Suc (ticks s2))\<rparr>)) 0 = 4"
    by (simp add: Size_def set_size_def)
  moreover have "Vector_index (set_size 0 (Suc 3) (s2\<lparr>mem := (mem s2)((1, 0) := Some 2), ticks := Suc (Suc (ticks s2))\<rparr>)) 0 i
      = (if i = 0 then Some 2 else if i = 1 then Some 1 else if i = 2 then Some 2 else if i = 3 then Some 3 else None)"
    for i
    by (auto simp: Vector_index_def obj_def in_block_def Vector_begin_def GetAddress_def ptr_add_def
        Size_def set_size_def s2_def shr_def T_int_def spare_vector_def)
  ultimately show ?thesis by (simp add: spare_vector_index)
qed

lemma Erase_ok:
  assumes w: "wf_state s this" and cm: "calm T s" and p: "p < Size s this" "p < 2 ^ 31"
  shows "\<exists>s'. Erase T this (ptr_add (Vector_begin s this) p) s = Ok (ptr_add (Vector_begin s' this) p) s' \<and>
           wf_state s' this \<and> calm T s' \<and> Size s' this = Size s this - 1 \<and>
           Capacity s' this = Capacity s this \<and>
           (\<forall>i. i < p \<longrightarrow> Vector_index s' this i = Vector_index s this i) \<and>
           (\<forall>i. p \<le> i \<and> i < Size s this - 1 \<longrightarrow> Vector_index s' this i = Vector_index s this (Suc i)) \<and>
           mem s' (ptr_add (Vector_begin s' this) (Size s this - 1)) = None \<and>
           blocks s' = blocks s \<and>
           vecs s' = (vecs s)(this := (vecs s this)\<lparr>vec_size := Size s this - 1\<rparr>)"
proof -
  from w have wh: "wf_heap s" and wv: "wf_vec s this" by (auto simp: wf_state_def)
  define a where "a = raw_buffer (vec_data (vecs s this))"
  define n where "n = Size s this"
  let ?c = "raw_capacity (vec_data (vecs s this))"
  have sz: "vec_size (vecs s this) = n" using n_def by (simp add: Size_def)
  note W = wf_vecD[OF wv a_def refl sz[symmetric]]
  have pn: "p < n" using p n_def by simp
  have c: "blocks s a = Some ?c" "n \<le> ?c" "a < next_addr s" using W(1) W(3) pn by auto
  let ?M = "(shl T a p (n - Suc p) (mem s))((a, n - 1) := None)"
  let ?s' = "s\<lparr>mem := ?M, vecs := (vecs s)(this := (vecs s this)\<lparr>vec_size := n - 1\<rparr>),
              ticks := ticks s + (n - Suc p)\<rparr>"
  have nf: "\<forall>k. k < Size s this - Suc p \<longrightarrow> \<not> fails T (ticks s + k)" using cm by (simp add: calm_def)
  have r: "Erase T this (a, p) s = Ok (a, p) ?s'"
    by (rule Erase_result[OF wv p nf a_def n_def])
  have pos: "ptr_add (Vector_begin s this) p = (a, p)" "ptr_add (Vector_begin ?s' this) p = (a, p)"
    "ptr_add (Vector_begin ?s' this) (Size s this - 1) = (a, n - 1)"
    by (simp_all add: ptr_add_def Vector_begin_def GetAddress_def a_def n_def)
  have idx: "Vector_index s this i = mem s (a, i)" if "i < n" for i
    using Vector_index_wf[OF wv, of i] that n_def a_def by simp
  have idx': "Vector_index ?s' this i = ?M (a, i)" if "i < n - 1" for i
    using that c a_def
    by (auto simp: Vector_index_def obj_def in_block_def Vector_begin_def GetAddress_def ptr_add_def Size_def)
  have M1: "?M (a, i) = mem s (a, i)" if "i < p" for i using that pn by (auto simp: shl_def)
  have M2: "?M (a, i) = mem s (a, Suc i)" if "p \<le> i" "i < n - 1" for i
    using that pn by (auto simp: shl_def)
  have M3: "?M (a, i) = None" if "n - 1 \<le> i" for i
    using that pn W(5)[of i] by (auto simp: shl_def)
  have M4: "?M q = mem s q" if "fst q \<noteq> a" for q using that by (auto simp: shl_def)
  have live: "?M (a, i) \<noteq> None" if "i < n - 1" for i
    using that M1[of i] M2[of i] W(4)[of i] W(4)[of "Suc i"] by (cases "i < p") auto
  have wh': "wf_heap ?s'" using wh c M4 unfolding wf_heap_def by auto
  have wv': "wf_vec ?s' this"
    unfolding wf_vec_def using c pn live M3 W(2) a_def by (auto simp: Let_def)
  have 1: "\<forall>i. i < p \<longrightarrow> Vector_index ?s' this i = Vector_index s this i"
  proof (intro allI impI)
    fix i assume i: "i < p"
    then have "i < n - 1" "i < n" using pn by auto
    then show "Vector_index ?s' this i = Vector_index s this i"
      using idx[of i] idx'[of i] M1[OF i] by simp
  qed
  have 2: "\<forall>i. p \<le> i \<and> i < Size s this - 1 \<longrightarrow> Vector_index ?s' this i = Vector_index s this (Suc i)"
  proof (intro allI impI)
    fix i assume i: "p \<le> i \<and> i < Size s this - 1"
    then have "i < n - 1" "Suc i < n" using n_def by auto
    then show "Vector_index ?s' this i = Vector_index s this (Suc i)"
      using idx[of "Suc i"] idx'[of i] M2[of i] i by simp
  qed
  have 3: "calm T ?s'" using cm by (auto intro: calm_later)
  show ?thesis
    apply (rule exI[where x = ?s'])
    unfolding pos using r wh' wv' 1 2 3 M3[of "n - 1"] n_def
    by (simp add: wf_state_def Size_def Capacity_def)
qed

text \<open>
  Erasing at a position \<open>p < size\<close> below \<open>2\<^sup>3\<^sup>1\<close>, when no move assignment fails: the
  size drops by one, the capacity stays, the elements before \<open>p\<close> are unchanged, those
  formerly at \<open>[p + 1, size)\<close> are at \<open>[p, size - 1)\<close> in the same order, and the last
  live slot has been destroyed (it is raw); the vector stays well-formed.
\<close>

theorem Erase_shifts_left:
  assumes "wf_state s this" and "calm T s" and "p < Size s this" and "p < 2 ^ 31"
  shows "\<exists>r s'. Erase T this (ptr_add (Vector_begin s this) p) s = Ok r s' \<and>
           wf_state s' this \<and> Size s' this = Size s this - 1 \<and> Capacity s' this = Capacity s this \<and>
           Vector_begin s' this = Vector_begin s this \<and>
           (\<forall>i. i < p \<longrightarrow> Vector_index s' this i = Vector_index s this i) \<and>
           (\<forall>i. p \<le> i \<and> i < Size s this - 1 \<longrightarrow> Vector_index s' this i = Vector_index s this (Suc i)) \<and>
           mem s' (ptr_add (Vector_begin s' this) (Size s this - 1)) = None"
proof -
  from Erase_ok[OF assms] obtain s' where
    s': "Erase T this (ptr_add (Vector_begin s this) p) s = Ok (ptr_add (Vector_begin s' this) p) s'"
      "wf_state s' this" "Size s' this = Size s this - 1" "Capacity s' this = Capacity s this"
      "\<forall>i. i < p \<longrightarrow> Vector_index s' this i = Vector_index s this i"
      "\<forall>i. p \<le> i \<and> i < Size s this - 1 \<longrightarrow> Vector_index s' this i = Vector_index s this (Suc i)"
      "mem s' (ptr_add (Vector_begin s' this) (Size s this - 1)) = None"
      "vecs s' = (vecs s)(this := (vecs s this)\<lparr>vec_size := Size s this - 1\<rparr>)"
    by blast
  have "Vector_begin s' this = Vector_begin s this"
    using s'(8) by (simp add: Vector_begin_def)
  with s' show ?thesis by blast
qed

theorem Erase_shifts_left_witness:
  "\<exists>r s'. Erase T_int 0 (1, 1) spare_vector = Ok r s' \<and> Size s' 0 = 2 \<and>
          Vector_index s' 0 0 = Some 1 \<and> Vector_index s' 0 1 = Some 3 \<and> mem s' (1, 2) = None"
proof -
  from Erase_shifts_left[OF wf_spare_vector calm_T_int, of 1]
  obtain r s' where s': "Erase T_int 0 (ptr_add (Vector_begin spare_vector 0) 1) spare_vector = Ok r s'"
    "Size s' 0 = Size spare_vector 0 - 1" "Vector_begin s' 0 = Vector_begin spare_vector 0"
    "\<forall>i. i < 1 \<longrightarrow> Vector_index s' 0 i = Vector_index spare_vector 0 i"
    "\<forall>i. 1 \<le> i \<and> i < Size spare_vector 0 - 1 \<longrightarrow> Vector_index s' 0 i = Vector_index spare_vector 0 (Suc i)"
    "mem s' (ptr_add (Vector_begin s' 0) (Size spare_vector 0 - 1)) = None"
    by (auto simp: spare_vector_index)
  have "Vector_index s' 0 0 = Some 1" using s'(4) by (simp add: spare_vector_index)
  moreover have "Vector_index s' 0 (Suc 0) = Some 3"
    using s'(5)[rule_format, of "Suc 0"] by (simp add: spare_vector_index numeral_2_eq_2)
  moreover have "mem s' (1, 2) = None"
    using s'(6) s'(3) by (simp add: spare_vector_index ptr_add_def numeral_2_eq_2)
  ultimately show ?thesis using s'(1,2) by (auto simp: spare_vector_index ptr_add_def)
qed

text \<open>
  Under the same conditions \<^verbatim>\<open>Erase\<close> returns the iterator at index \<open>p\<close> of the updated
  vector: it designates the element that followed the erased one, or it is \<^verbatim>\<open>end()\<close> when
  the last element was erased.
\<close>

theorem Erase_returns_position:
  assumes "wf_state s this" and "calm T s" and "p < Size s this" and "p < 2 ^ 31"
  shows "\<exists>r s'. Erase T this (ptr_add (Vector_begin s this) p) s = Ok r s' \<and>
           r = ptr_add (Vector_begin s' this) p \<and>
           (Suc p < Size s this \<longrightarrow> obj s' r = Vector_index s this (Suc p) \<and> obj s' r \<noteq> None) \<and>
           (Suc p = Size s this \<longrightarrow> r = Vector_end s' this)"
proof -
  from Erase_ok[OF assms] obtain s' where
    s': "Erase T this (ptr_add (Vector_begin s this) p) s = Ok (ptr_add (Vector_begin s' this) p) s'"
      "Size s' this = Size s this - 1"
      "\<forall>i. p \<le> i \<and> i < Size s this - 1 \<longrightarrow> Vector_index s' this i = Vector_index s this (Suc i)"
    by blast
  have wv: "wf_vec s this" using assms(1) by (simp add: wf_state_def)
  have 1: "obj s' (ptr_add (Vector_begin s' this) p) = Vector_index s this (Suc p) \<and>
           obj s' (ptr_add (Vector_begin s' this) p) \<noteq> None" if "Suc p < Size s this"
  proof -
    have "Vector_index s' this p = Vector_index s this (Suc p)" using s'(3) that by auto
    moreover have "Vector_index s' this p = obj s' (ptr_add (Vector_begin s' this) p)"
      using that s'(2) by (auto simp: Vector_index_def)
    moreover have "Vector_index s this (Suc p) \<noteq> None" using Vector_index_wf[OF wv that] by blast
    ultimately show ?thesis by metis
  qed
  have 2: "ptr_add (Vector_begin s' this) p = Vector_end s' this" if "Suc p = Size s this"
  proof -
    have "Size s' this = p" using that s'(2) by simp
    then show ?thesis by (simp add: Vector_end_def Vector_begin_def Size_def)
  qed
  show ?thesis using s'(1) 1 2 by blast
qed

theorem Erase_returns_position_witness:
  "\<exists>r s'. Erase T_int 0 (1, 1) spare_vector = Ok r s' \<and> r = ptr_add (Vector_begin s' 0) 1 \<and>
          obj s' r = Some 3"
proof -
  from Erase_returns_position[OF wf_spare_vector calm_T_int, of 1]
  obtain r s' where "Erase T_int 0 (ptr_add (Vector_begin spare_vector 0) 1) spare_vector = Ok r s'"
    "r = ptr_add (Vector_begin s' 0) 1" "obj s' r = Vector_index spare_vector 0 (Suc 1)"
    by (auto simp: spare_vector_index)
  then show ?thesis by (auto simp: spare_vector_index ptr_add_def)
qed

lemma to_int_big_numeral: "to_int 2147483648 < 0"
  by (simp add: to_int_def)

lemma huge_vector_facts:
  "Size huge_vector 0 = 2 ^ 31 + 1" "Vector_begin huge_vector 0 = (1, 0)"
  "Vector_end huge_vector 0 = (1, 2 ^ 31 + 1)"
  by (simp_all add: huge_vector_def Size_def Vector_begin_def Vector_end_def GetAddress_def ptr_add_def)

text \<open>
  C4 at the failing input: a well-formed vector of \<open>2\<^sup>3\<^sup>1 + 1\<close> elements and the valid
  position \<open>2\<^sup>3\<^sup>1\<close>, its last element. \<^verbatim>\<open>int pos_index = pos - begin()\<close> is negative there,
  the ranges computed from it start before the buffer, and the call is undefined: no
  element is erased.
\<close>

theorem Erase_index_truncated:
  "wf_state huge_vector 0 \<and> 2 ^ 31 < Size huge_vector 0 \<and>
   Erase T_int 0 (ptr_add (Vector_begin huge_vector 0) (2 ^ 31)) huge_vector = UB"
  using wf_huge_vector
  by (simp add: huge_vector_facts Erase_def ptr_add_def to_int_big_numeral)

text \<open>
  C10 at the same input: the call returns no iterator at all, in particular not the
  iterator at index \<open>2\<^sup>3\<^sup>1\<close> of the updated vector, which here would be \<^verbatim>\<open>end()\<close>.
\<close>

theorem Erase_returns_nothing:
  "Suc (2 ^ 31) = Size huge_vector 0 \<and> to_int (2 ^ 31) < 0 \<and>
   (\<forall>r s'. Erase T_int 0 (ptr_add (Vector_begin huge_vector 0) (2 ^ 31)) huge_vector \<noteq> Ok r s')"
  by (simp add: huge_vector_facts Erase_def ptr_add_def to_int_big_numeral)

lemma Insert_index_truncated:
  "Insert T_int 0 (ptr_add (Vector_begin huge_vector 0) (2 ^ 31)) (ByValue 7) huge_vector = UB"
  by (simp add: huge_vector_facts Insert_def Emplace_def ptr_add_def to_int_big_numeral)

section \<open>Failure of an append that reallocates\<close>

lemma copy_construct_throw:
  "fails T (ticks s) \<Longrightarrow> copy_construct T p q s = Throw ElemThrow (s\<lparr>ticks := Suc (ticks s)\<rparr>)"
  by (simp add: copy_construct_def construct_def fallible_def)

lemma construct_throw:
  "fails T (ticks s) \<Longrightarrow> construct T p a s = Throw ElemThrow (s\<lparr>ticks := Suc (ticks s)\<rparr>)"
  by (simp add: construct_def fallible_def)

lemma uninitialized_copy_loop_throw:
  "fst f \<noteq> fst d \<Longrightarrow> blocks s (fst f) = Some cf \<Longrightarrow> snd f + i + n \<le> cf \<Longrightarrow>
   blocks s (fst d) = Some cd \<Longrightarrow> snd d + i + n \<le> cd \<Longrightarrow>
   (\<forall>j. i \<le> j \<and> j < i + n \<longrightarrow> mem s (fst f, snd f + j) \<noteq> None) \<Longrightarrow>
   (\<forall>j. j < i \<longrightarrow> mem s (fst d, snd d + j) \<noteq> None) \<Longrightarrow>
   k < n \<Longrightarrow> (\<forall>j. j < k \<longrightarrow> \<not> fails T (ticks s + j)) \<Longrightarrow> fails T (ticks s + k) \<Longrightarrow>
   uninitialized_copy_loop T f d i n s =
     Throw ElemThrow (s\<lparr>mem := kill d (i + k) (cpy f d i k (mem s)), ticks := ticks s + Suc k\<rparr>)"
proof (induction n arbitrary: i s k)
  case 0
  then show ?case by simp
next
  case (Suc n)
  show ?case
  proof (cases k)
    case 0
    have c: "copy_construct T (ptr_add d i) (ptr_add f i) s = Throw ElemThrow (s\<lparr>ticks := Suc (ticks s)\<rparr>)"
      using Suc.prems(10) 0 by (intro copy_construct_throw) simp
    have "destroy_n (fst d, snd d) i (s\<lparr>ticks := Suc (ticks s)\<rparr>) =
            Ok () (s\<lparr>ticks := Suc (ticks s)\<rparr>\<lparr>mem := kill (fst d, snd d) i (mem (s\<lparr>ticks := Suc (ticks s)\<rparr>))\<rparr>)"
    proof (intro destroy_n_ok'[where c = cd] disjI2 conjI allI impI)
      fix j assume j: "snd d \<le> j \<and> j < snd d + i"
      then have "mem s (fst d, snd d + (j - snd d)) \<noteq> None"
        using Suc.prems(7) by (intro Suc.prems(7)[rule_format]) auto
      then show "mem (s\<lparr>ticks := Suc (ticks s)\<rparr>) (fst d, j) \<noteq> None" using j by simp
    qed (use Suc.prems in auto)
    then show ?thesis using c 0 by simp
  next
    case (Suc k')
    from Suc.prems(6) have "mem s (fst f, snd f + i) \<noteq> None" by simp
    then obtain v where v: "mem s (fst f, snd f + i) = Some v" by auto
    let ?s1 = "s\<lparr>mem := (mem s)((fst d, snd d + i) := Some v), ticks := Suc (ticks s)\<rparr>"
    have nf0: "\<not> fails T (ticks s)" using Suc.prems(9) Suc by (auto dest: spec[where x = 0])
    have c: "copy_construct T (ptr_add d i) (ptr_add f i) s = Ok () ?s1"
      unfolding ptr_add_def using Suc.prems v nf0
      by (intro copy_construct_ok[where c = cd and c' = cf]) auto
    have "uninitialized_copy_loop T f d (Suc i) n ?s1 =
            Throw ElemThrow (?s1\<lparr>mem := kill d (Suc i + k') (cpy f d (Suc i) k' (mem ?s1)),
                                ticks := ticks ?s1 + Suc k'\<rparr>)"
    proof (intro Suc.IH)
      show "\<forall>j<k'. \<not> fails T (ticks ?s1 + j)"
        using Suc.prems(9) Suc by (auto dest: spec[where x = "Suc _"])
      show "fails T (ticks ?s1 + k')" using Suc.prems(10) Suc by simp
      show "\<forall>j<Suc i. mem ?s1 (fst d, snd d + j) \<noteq> None"
        using Suc.prems(7) by (auto simp: less_Suc_eq)
    qed (use Suc.prems Suc in auto)
    moreover have "cpy f d (Suc i) k' ((mem s)((fst d, snd d + i) := Some v)) = cpy f d i (Suc k') (mem s)"
      using v Suc.prems(1) by (rule_tac ext) (auto simp: cpy_def)
    ultimately show ?thesis using c Suc by simp
  qed
qed

lemma Allocate_throw:
  "fails T (ticks s) \<Longrightarrow> n \<noteq> 0 \<Longrightarrow> Allocate T n s = Throw BadAlloc (s\<lparr>ticks := Suc (ticks s)\<rparr>)"
  by (simp add: Allocate_def fallible_def)

text \<open>
  C1. An append to a well-formed vector whose size equals its capacity, with a readable
  argument, in a run where the allocation fails, or the constructor of the new element
  throws, or (when the elements are copied into the new block, not moved, the request
  for the doubled capacity fitting as it does for every vector that exists) the copy of
  some element throws: the call throws, and afterwards the vector object, every block
  and every slot of the vector's buffer are as before the call, so its elements, its
  size and its capacity are unchanged and it is still well-formed.
\<close>

theorem EmplaceBack_strong_guarantee:
  assumes w: "wf_state s this" and eq: "Size s this = Capacity s this"
    and v: "arg_value s values = Some v"
    and fl: "fails T (ticks s) \<or> fails T (Suc (ticks s)) \<or>
             (\<not> (nothrow_move_constructible T \<or> \<not> copy_constructible T) \<and>
              (\<exists>k. k < Size s this \<and> fails T (ticks s + 2 + k)) \<and>
              fits T (Capacity s this * 2))"
  shows "\<exists>e s'. EmplaceBack T this values s = Throw e s' \<and>
           vecs s' = vecs s \<and> blocks s' = blocks s \<and>
           (\<forall>i. mem s' (ptr_add (Vector_begin s this) i) = mem s (ptr_add (Vector_begin s this) i)) \<and>
           (\<forall>i. Vector_index s' this i = Vector_index s this i) \<and>
           Size s' this = Size s this \<and> Capacity s' this = Capacity s this \<and> wf_state s' this"
proof -
  from w have wh: "wf_heap s" and wv: "wf_vec s this" by (auto simp: wf_state_def)
  define ab where "ab = raw_buffer (vec_data (vecs s this))"
  define n where "n = Size s this"
  define c' where "c' = (if n = 0 then 1 else n * 2)"
  define b where "b = next_addr s"
  define sl where "sl = slots T c'"
  have cap: "raw_capacity (vec_data (vecs s this)) = n" using eq n_def by (simp add: Size_def Capacity_def)
  have sz: "vec_size (vecs s this) = n" using n_def by (simp add: Size_def)
  note W = wf_vecD[OF wv ab_def cap[symmetric] sz[symmetric]]
  have fresh: "blocks s b = None" "\<And>i. mem s (b, i) = None" "0 < b" "blocks s nullptr = None"
    using wh b_def by (auto simp: wf_heap_def)
  have ab: "ab \<noteq> b" using W(2) W(3) fresh by (cases "n = 0") auto
  have c'0: "c' \<noteq> 0" "n < c'" using c'_def by auto
  have cexp: "(if Capacity s this = 0 then 1 else Capacity s this * 2) = c'"
    using c'_def cap by (simp add: Capacity_def)
  let ?nd = "\<lparr>raw_buffer = b, raw_capacity = c'\<rparr>"
  have vb: "ptr_add (Vector_begin s this) i = (ab, i)" for i
    by (simp add: ptr_add_def Vector_begin_def GetAddress_def ab_def)
  have post: "vecs s' = vecs s \<and> blocks s' = blocks s \<and>
           (\<forall>i. mem s' (ptr_add (Vector_begin s this) i) = mem s (ptr_add (Vector_begin s this) i)) \<and>
           (\<forall>i. Vector_index s' this i = Vector_index s this i) \<and>
           Size s' this = Size s this \<and> Capacity s' this = Capacity s this \<and> wf_state s' this"
    if 1: "vecs s' = vecs s" and 2: "blocks s' = blocks s"
      and 3: "\<And>q. fst q \<noteq> b \<Longrightarrow> mem s' q = mem s q"
      and 4: "next_addr s' = next_addr s \<and> mem s' = mem s \<or> next_addr s' = Suc b" for s'
  proof -
    have m: "mem s' (ab, i) = mem s (ab, i)" for i using 3[of "(ab, i)"] ab by simp
    have vi: "Vector_index s' this i = Vector_index s this i" for i
      using 1 2 m by (simp add: Vector_index_def obj_def in_block_def Size_def Vector_begin_def
          GetAddress_def ptr_add_def ab_def)
    have wh': "wf_heap s'"
      using wh 2 3 4 b_def unfolding wf_heap_def by (auto simp: Suc_le_eq)
    have wv': "wf_vec s' this"
      using wv 1 2 m 4 b_def unfolding wf_vec_def by (auto simp: Let_def ab_def)
    show ?thesis using 1 2 m vi wh' wv' by (simp add: vb wf_state_def Size_def Capacity_def)
  qed
  show ?thesis
  proof (cases "fails T (ticks s)")
    case True
    have al: "RawMemory_sized T c' s = Throw BadAlloc (s\<lparr>ticks := Suc (ticks s)\<rparr>)"
      using True c'0 by (simp add: RawMemory_sized_def Allocate_throw)
    have r: "EmplaceBack T this values s = Throw BadAlloc (s\<lparr>ticks := Suc (ticks s)\<rparr>)"
      unfolding EmplaceBack_def with_new_data_def
      by (simp only: eq simp_thms if_True cexp al and_then.simps)
    show ?thesis
      by (intro exI conjI, rule r) (insert post[of "s\<lparr>ticks := Suc (ticks s)\<rparr>"], simp_all)
  next
    case nf0: False
    let ?s1 = "s\<lparr>blocks := (blocks s)(b \<mapsto> sl), next_addr := Suc b, ticks := Suc (ticks s)\<rparr>"
    have al: "RawMemory_sized T c' s = Ok ?nd ?s1"
      using nf0 c'0 b_def by (simp add: RawMemory_sized_def Allocate_def fallible_def sl_def)
    have p1: "ptr_add (GetAddress ?nd) (Size ?s1 this) = (b, n)"
      using sz by (simp add: GetAddress_def ptr_add_def Size_def)
    have dealloc: "RawMemory_destroy ?nd (?s1\<lparr>mem := M, ticks := t\<rparr>) =
              Ok () (?s1\<lparr>mem := M, ticks := t, blocks := blocks s\<rparr>)" for M t
      using fresh(3) fresh(1) by (simp add: RawMemory_destroy_def Deallocate_def fun_upd_idem)
    show ?thesis
    proof (cases "fails T (Suc (ticks s))")
      case True
      have co: "construct T (b, n) values ?s1 = Throw ElemThrow (?s1\<lparr>mem := mem s, ticks := Suc (Suc (ticks s))\<rparr>)"
        using True by (simp add: construct_throw)
      have r: "EmplaceBack T this values s =
                 Throw ElemThrow (?s1\<lparr>mem := mem s, ticks := Suc (Suc (ticks s)), blocks := blocks s\<rparr>)"
        unfolding EmplaceBack_def with_new_data_def
        by (simp only: eq simp_thms if_True cexp al and_then.simps p1 co result.case dealloc rethrow.simps)
      show ?thesis
        by (intro exI conjI, rule r)
           (insert post[of "?s1\<lparr>mem := mem s, ticks := Suc (Suc (ticks s)), blocks := blocks s\<rparr>"], simp_all)
    next
      case nf1: False
      with nf0 fl have pol: "\<not> (nothrow_move_constructible T \<or> \<not> copy_constructible T)"
        and ex: "\<exists>k. k < n \<and> fails T (ticks s + 2 + k)"
        and ft: "fits T (Capacity s this * 2)" using n_def by auto
      define k where "k = (LEAST k. k < n \<and> fails T (ticks s + 2 + k))"
      have k: "k < n" "fails T (ticks s + 2 + k)"
        using LeastI_ex[OF ex] by (simp_all add: k_def)
      have kmin: "\<not> fails T (ticks s + 2 + j)" if "j < k" for j
        using not_less_Least[of j "\<lambda>k. k < n \<and> fails T (ticks s + 2 + k)"] that k(1)
        by (simp add: k_def)
      have n0: "n \<noteq> 0" using k by simp
      have sl: "sl = c'" using ft n0 cap c'_def by (simp add: sl_def slots_fits Capacity_def)
      let ?s2 = "?s1\<lparr>mem := (mem s)((b, n) := Some v), ticks := Suc (Suc (ticks s))\<rparr>"
      have co: "construct T (b, n) values ?s1 = Ok () ?s2"
        using nf1 c'0 arg_value_frame[OF v fresh(1), where n = c' and x = "Suc b" and t = "Suc (ticks s)"]
        by (simp add: construct_ok[where c = c' and v = v] sl)
      let ?M = "kill (b, 0) (0 + k) (cpy (ab, 0) (b, 0) 0 k (mem ?s2))"
      have lp: "uninitialized_copy_loop T (ab, 0) (b, 0) 0 n ?s2 =
                  Throw ElemThrow (?s2\<lparr>mem := ?M, ticks := ticks ?s2 + Suc k\<rparr>)"
      proof (rule uninitialized_copy_loop_throw[where cf = n and cd = c'])
        show "blocks ?s2 (fst (b, 0::nat)) = Some c'" by (simp add: sl)
        show "blocks ?s2 (fst (ab, 0::nat)) = Some n" using W(3) n0 ab by simp
        show "\<forall>j. 0 \<le> j \<and> j < 0 + n \<longrightarrow> mem ?s2 (fst (ab, 0::nat), snd (ab, 0::nat) + j) \<noteq> None"
          using W(4) ab by simp
        show "\<forall>j<k. \<not> fails T (ticks ?s2 + j)" using kmin by simp
        show "fails T (ticks ?s2 + k)" using k(2) by simp
      qed (use ab c'0 k in auto)
      have cm: "CopyOrMove T this ?nd ?s2 = Throw ElemThrow (?s1\<lparr>mem := ?M, ticks := ticks ?s2 + Suc k\<rparr>)"
        using pol lp sz ab_def
        by (simp add: CopyOrMove_def uninitialized_copy_n_def Vector_begin_def GetAddress_def Size_def)
      have r: "EmplaceBack T this values s =
                 Throw ElemThrow (?s1\<lparr>mem := ?M, ticks := ticks ?s2 + Suc k, blocks := blocks s\<rparr>)"
        unfolding EmplaceBack_def with_new_data_def
        by (simp only: eq simp_thms if_True cexp al and_then.simps p1 co cm result.case dealloc rethrow.simps)
      have frame: "?M q = mem s q" if "fst q \<noteq> b" for q
        using that by (auto simp: kill_def cpy_def)
      show ?thesis
        by (intro exI conjI, rule r)
           (insert post[of "?s1\<lparr>mem := ?M, ticks := ticks ?s2 + Suc k, blocks := blocks s\<rparr>"] frame, simp_all)
    qed
  qed
qed

lemma full_vector_facts:
  "wf_state full_vector 0" "Size full_vector 0 = 3" "Capacity full_vector 0 = 3"
  "Vector_index full_vector 0 0 = Some 1" "Vector_index full_vector 0 (Suc 0) = Some 2"
  "Vector_index full_vector 0 2 = Some 3" "ticks full_vector = 0"
  by (simp_all add: wf_state_def wf_heap_def wf_vec_def full_vector_def Let_def Vector_index_def
      obj_def in_block_def Vector_begin_def GetAddress_def ptr_add_def Size_def Capacity_def)

theorem EmplaceBack_strong_guarantee_witness:
  "\<exists>e s'. EmplaceBack (T_copied_fail_at 4) 0 (ByValue 4) full_vector = Throw e s' \<and>
          Size s' 0 = 3 \<and> Capacity s' 0 = 3 \<and> Vector_index s' 0 0 = Some 1 \<and>
          Vector_index s' 0 1 = Some 2 \<and> Vector_index s' 0 2 = Some 3"
proof -
  have fl: "fails (T_copied_fail_at 4) (ticks full_vector) \<or>
            fails (T_copied_fail_at 4) (Suc (ticks full_vector)) \<or>
            (\<not> (nothrow_move_constructible (T_copied_fail_at 4) \<or> \<not> copy_constructible (T_copied_fail_at 4)) \<and>
             (\<exists>k. k < Size full_vector 0 \<and> fails (T_copied_fail_at 4) (ticks full_vector + 2 + k)) \<and>
             fits (T_copied_fail_at 4) (Capacity full_vector 0 * 2))"
    by (auto simp: T_copied_fail_at_def full_vector_facts fits_def intro!: exI[where x = 2])
  have eq: "Size full_vector 0 = Capacity full_vector 0" by (simp add: full_vector_facts)
  from EmplaceBack_strong_guarantee[OF full_vector_facts(1) eq _ fl, of "ByValue 4" 4]
  obtain e s' where "EmplaceBack (T_copied_fail_at 4) 0 (ByValue 4) full_vector = Throw e s'"
    "\<forall>i. Vector_index s' 0 i = Vector_index full_vector 0 i"
    "Size s' 0 = Size full_vector 0" "Capacity s' 0 = Capacity full_vector 0"
    by auto
  then show ?thesis using full_vector_facts by auto
qed

section \<open>What an operation may modify\<close>

lemma post_Ok [simp]: "post (Ok x s) Q E = Q x s"
  by (simp add: post_def)

lemma post_Throw [simp]: "post (Throw e s) Q E = E s"
  by (simp add: post_def)

lemma post_UB [simp]: "post UB Q E"
  by (simp add: post_def)

lemma post_and_then:
  "post m Q1 E \<Longrightarrow> (\<And>x s1. Q1 x s1 \<Longrightarrow> post (f x s1) Q2 E) \<Longrightarrow> post (and_then m f) Q2 E"
  by (cases m) auto

lemma post_weaken:
  "post r Q E \<Longrightarrow> (\<And>x s. Q x s \<Longrightarrow> Q' x s) \<Longrightarrow> (\<And>s. E s \<Longrightarrow> E' s) \<Longrightarrow> post r Q' E'"
  by (cases r) auto

lemma post_rethrow:
  "post r (\<lambda>_. E) (\<lambda>_. True) \<Longrightarrow> post (rethrow e r) Q E"
  by (cases r) auto

lemma frame_refl [simp]: "frame W s s"
  by (simp add: frame_def)

lemma frame_trans:
  assumes 1: "frame W s0 s" and 2: "frame W1 s s'" and 3: "\<forall>a\<in>W1. a \<in> W \<or> next_addr s0 \<le> a"
  shows "frame W s0 s'"
proof -
  have v: "vecs s' = vecs s0" and n: "next_addr s0 \<le> next_addr s" "next_addr s \<le> next_addr s'"
    using 1 2 by (simp_all add: frame_def)
  have a: "blocks s' a = blocks s0 a \<and> (\<forall>i. mem s' (a, i) = mem s0 (a, i))"
    if "a < next_addr s0" "a \<notin> W" for a
  proof -
    have "a \<notin> W1" using that 3 by auto
    moreover have "a < next_addr s" using that n by simp
    ultimately have "blocks s' a = blocks s a \<and> (\<forall>i. mem s' (a, i) = mem s (a, i))"
      using 2 by (simp add: frame_def)
    moreover have "blocks s a = blocks s0 a \<and> (\<forall>i. mem s (a, i) = mem s0 (a, i))"
      using 1 that by (simp add: frame_def)
    ultimately show ?thesis by simp
  qed
  have z: "blocks s' nullptr = None \<and> (\<forall>i. mem s' (nullptr, i) = mem s0 (nullptr, i))"
    if "0 < next_addr s0" "blocks s0 nullptr = None"
  proof -
    have "blocks s nullptr = None \<and> (\<forall>i. mem s (nullptr, i) = mem s0 (nullptr, i))"
      using 1 that by (simp add: frame_def)
    moreover have "0 < next_addr s" using that n by simp
    ultimately show ?thesis using 2 by (simp add: frame_def)
  qed
  show ?thesis unfolding frame_def using v n a z by auto
qed

lemma post_frame_trans:
  "frame W s0 s \<Longrightarrow> post r (\<lambda>_. frame W1 s) (frame W1 s) \<Longrightarrow> (\<forall>a\<in>W1. a \<in> W \<or> next_addr s0 \<le> a) \<Longrightarrow>
   post r (\<lambda>_. frame W s0) (frame W s0)"
  by (cases r) (auto intro: frame_trans)

lemma frame_vecs: "frame W s0 s \<Longrightarrow> vecs s = vecs s0"
  by (simp add: frame_def)

lemma keeps_simps [simp]:
  "keeps W s0 (Ok x s) = frame W s0 s" "keeps W s0 (Throw e s) = frame W s0 s" "keeps W s0 UB"
  by (simp_all add: keeps_def)

lemma keeps_trans:
  "frame W s0 s \<Longrightarrow> keeps W1 s r \<Longrightarrow> (\<forall>a\<in>W1. a \<in> W \<or> next_addr s0 \<le> a) \<Longrightarrow> keeps W s0 r"
  unfolding keeps_def by (rule post_frame_trans)

lemma keeps_and_then:
  "keeps W s0 m \<Longrightarrow> (\<And>x s1. m = Ok x s1 \<Longrightarrow> frame W s0 s1 \<Longrightarrow> keeps W s0 (f x s1)) \<Longrightarrow>
   keeps W s0 (and_then m f)"
  by (cases m) auto

lemma keeps_case:
  "keeps W s0 m \<Longrightarrow> (\<And>x s1. m = Ok x s1 \<Longrightarrow> frame W s0 s1 \<Longrightarrow> keeps W s0 (f x s1)) \<Longrightarrow>
   keeps W s0 (case m of Ok x s1 \<Rightarrow> f x s1 | Throw e s1 \<Rightarrow> Throw e s1 | UB \<Rightarrow> UB)"
  by (cases m) auto

lemma keeps_rethrow:
  "keeps W s0 r \<Longrightarrow> keeps W s0 (rethrow e r)"
  by (cases r) auto

lemma keeps_case_rethrow:
  "keeps W s0 m \<Longrightarrow> (\<And>x s1. m = Ok x s1 \<Longrightarrow> frame W s0 s1 \<Longrightarrow> keeps W s0 (f x s1)) \<Longrightarrow>
   (\<And>s1. frame W s0 s1 \<Longrightarrow> keeps W s0 (c s1)) \<Longrightarrow>
   keeps W s0 (case m of Ok x s1 \<Rightarrow> f x s1 | Throw e s1 \<Rightarrow> rethrow e (c s1) | UB \<Rightarrow> UB)"
  by (cases m) (auto intro: keeps_rethrow)

lemmas prim_defs = construct_def copy_construct_def move_construct_def value_construct_def
  copy_assign_def move_assign_def assign_temporary_def destroy_at_def fallible_def put_def
  in_block_def obj_def

lemma fallible_keeps0: "keeps {} s (fallible T e s)"
  by (simp add: fallible_def frame_def)

lemma construct_keeps0: "keeps {fst p} s (construct T p a s)"
  by (auto simp: prim_defs frame_def split: option.splits)

lemma copy_construct_keeps0: "keeps {fst p} s (copy_construct T p q s)"
  by (auto simp: prim_defs frame_def split: option.splits)

lemma value_construct_keeps0: "keeps {fst p} s (value_construct T p s)"
  by (auto simp: prim_defs frame_def split: option.splits)

lemma move_construct_keeps0: "keeps {fst p, fst q} s (move_construct T p q s)"
  by (auto simp: prim_defs frame_def split: option.splits)

lemma copy_assign_keeps0: "keeps {fst p} s (copy_assign T p q s)"
  by (auto simp: prim_defs frame_def split: option.splits)

lemma move_assign_keeps0: "keeps {fst p, fst q} s (move_assign T p q s)"
  by (auto simp: prim_defs frame_def split: option.splits)

lemma assign_temporary_keeps0: "keeps {fst p} s (assign_temporary T p a s)"
  by (auto simp: prim_defs frame_def split: option.splits)

lemma destroy_at_keeps0: "keeps {fst p} s (destroy_at p s)"
  by (auto simp: prim_defs frame_def split: option.splits)

lemma Allocate_keeps0: "keeps {} s (Allocate T n s)"
  by (auto simp: Allocate_def fallible_def frame_def)

lemma Deallocate_keeps0: "keeps {a} s (Deallocate a s)"
  by (auto simp: Deallocate_def frame_def split: option.splits)

lemma construct_keeps:
  "frame W s0 s \<Longrightarrow> reach W s0 (fst p) \<Longrightarrow> keeps W s0 (construct T p a s)"
  by (rule keeps_trans[OF _ construct_keeps0]) (auto simp: reach_def)

lemma copy_construct_keeps:
  "frame W s0 s \<Longrightarrow> reach W s0 (fst p) \<Longrightarrow> keeps W s0 (copy_construct T p q s)"
  by (rule keeps_trans[OF _ copy_construct_keeps0]) (auto simp: reach_def)

lemma value_construct_keeps:
  "frame W s0 s \<Longrightarrow> reach W s0 (fst p) \<Longrightarrow> keeps W s0 (value_construct T p s)"
  by (rule keeps_trans[OF _ value_construct_keeps0]) (auto simp: reach_def)

lemma move_construct_keeps:
  "frame W s0 s \<Longrightarrow> reach W s0 (fst p) \<Longrightarrow> reach W s0 (fst q) \<Longrightarrow> keeps W s0 (move_construct T p q s)"
  by (rule keeps_trans[OF _ move_construct_keeps0]) (auto simp: reach_def)

lemma copy_assign_keeps:
  "frame W s0 s \<Longrightarrow> reach W s0 (fst p) \<Longrightarrow> keeps W s0 (copy_assign T p q s)"
  by (rule keeps_trans[OF _ copy_assign_keeps0]) (auto simp: reach_def)

lemma move_assign_keeps:
  "frame W s0 s \<Longrightarrow> reach W s0 (fst p) \<Longrightarrow> reach W s0 (fst q) \<Longrightarrow> keeps W s0 (move_assign T p q s)"
  by (rule keeps_trans[OF _ move_assign_keeps0]) (auto simp: reach_def)

lemma assign_temporary_keeps:
  "frame W s0 s \<Longrightarrow> reach W s0 (fst p) \<Longrightarrow> keeps W s0 (assign_temporary T p a s)"
  by (rule keeps_trans[OF _ assign_temporary_keeps0]) (auto simp: reach_def)

lemma destroy_at_keeps:
  "frame W s0 s \<Longrightarrow> reach W s0 (fst p) \<Longrightarrow> keeps W s0 (destroy_at p s)"
  by (rule keeps_trans[OF _ destroy_at_keeps0]) (auto simp: reach_def)

lemma Deallocate_keeps:
  "frame W s0 s \<Longrightarrow> reach W s0 a \<Longrightarrow> keeps W s0 (Deallocate a s)"
  by (rule keeps_trans[OF _ Deallocate_keeps0]) (auto simp: reach_def)

lemma Allocate_keeps:
  "frame W s0 s \<Longrightarrow> keeps W s0 (Allocate T n s)"
  by (rule keeps_trans[OF _ Allocate_keeps0]) auto

lemma reach_ptr_add [simp]: "reach W s0 (fst (ptr_add p k)) = reach W s0 (fst p)"
  by (simp add: ptr_add_def)

lemma reach_ptr_sub [simp]: "reach W s0 (fst (ptr_sub p k)) = reach W s0 (fst p)"
  by (simp add: ptr_sub_def)

lemma destroy_n_keeps:
  "frame W s0 s \<Longrightarrow> reach W s0 (fst p) \<Longrightarrow> keeps W s0 (destroy_n p n s)"
proof (induction n arbitrary: p s)
  case 0
  then show ?case by simp
next
  case (Suc n)
  show ?case
    unfolding destroy_n.simps
    by (rule keeps_case[OF destroy_at_keeps[OF Suc.prems]]) (simp add: Suc.IH Suc.prems)
qed

lemma uninitialized_copy_loop_keeps:
  "frame W s0 s \<Longrightarrow> reach W s0 (fst d) \<Longrightarrow> keeps W s0 (uninitialized_copy_loop T f d i n s)"
proof (induction n arbitrary: i s)
  case 0
  then show ?case by simp
next
  case (Suc n)
  show ?case
    unfolding uninitialized_copy_loop.simps
    by (rule keeps_case_rethrow[OF copy_construct_keeps[OF Suc.prems(1)]])
       (simp_all add: Suc.IH Suc.prems destroy_n_keeps)
qed

lemma uninitialized_move_loop_keeps:
  "frame W s0 s \<Longrightarrow> reach W s0 (fst d) \<Longrightarrow> reach W s0 (fst f) \<Longrightarrow>
   keeps W s0 (uninitialized_move_loop T f d i n s)"
proof (induction n arbitrary: i s)
  case 0
  then show ?case by simp
next
  case (Suc n)
  show ?case
    unfolding uninitialized_move_loop.simps
    by (rule keeps_case_rethrow[OF move_construct_keeps[OF Suc.prems(1)]])
       (simp_all add: Suc.IH Suc.prems destroy_n_keeps)
qed

lemma uninitialized_value_construct_loop_keeps:
  "frame W s0 s \<Longrightarrow> reach W s0 (fst f) \<Longrightarrow>
   keeps W s0 (uninitialized_value_construct_loop T f i n s)"
proof (induction n arbitrary: i s)
  case 0
  then show ?case by simp
next
  case (Suc n)
  show ?case
    unfolding uninitialized_value_construct_loop.simps
    by (rule keeps_case_rethrow[OF value_construct_keeps[OF Suc.prems(1)]])
       (simp_all add: Suc.IH Suc.prems destroy_n_keeps)
qed

lemma std_copy_keeps:
  "frame W s0 s \<Longrightarrow> reach W s0 (fst d) \<Longrightarrow> keeps W s0 (std_copy T f n d s)"
proof (induction n arbitrary: f d s)
  case 0
  then show ?case by simp
next
  case (Suc n)
  show ?case
    unfolding std_copy.simps
    by (rule keeps_case[OF copy_assign_keeps[OF Suc.prems]]) (simp add: Suc.IH Suc.prems)
qed

lemma std_move_keeps:
  "frame W s0 s \<Longrightarrow> reach W s0 (fst d) \<Longrightarrow> reach W s0 (fst f) \<Longrightarrow> keeps W s0 (std_move T f n d s)"
proof (induction n arbitrary: f d s)
  case 0
  then show ?case by simp
next
  case (Suc n)
  show ?case
    unfolding std_move.simps
    by (rule keeps_case[OF move_assign_keeps[OF Suc.prems]]) (simp add: Suc.IH Suc.prems)
qed

lemma move_backward_keeps:
  "frame W s0 s \<Longrightarrow> reach W s0 (fst d) \<Longrightarrow> reach W s0 (fst f) \<Longrightarrow>
   keeps W s0 (move_backward T f n d s)"
proof (induction n arbitrary: d s)
  case 0
  then show ?case by simp
next
  case (Suc n)
  have "keeps W s0 (case move_assign T (ptr_sub d 1) (ptr_add f n) s of
        Ok _ s1 \<Rightarrow> move_backward T f n (ptr_sub d 1) s1
      | Throw e s1 \<Rightarrow> Throw e s1
      | UB \<Rightarrow> UB)"
    by (rule keeps_case[OF move_assign_keeps[OF Suc.prems(1)]]) (simp_all add: Suc.IH Suc.prems)
  then show ?case by simp
qed

lemma alters_simps [simp]:
  "alters this s0 (Ok x s) = changed this s0 s" "alters this s0 (Throw e s) = changed this s0 s"
  "alters this s0 UB"
  by (simp_all add: alters_def)

lemma frame_changed: "frame {buffer_of s0 this} s0 s \<Longrightarrow> changed this s0 s"
  by (auto simp: frame_def changed_def buffer_of_def)

lemma keeps_alters: "keeps {buffer_of s0 this} s0 r \<Longrightarrow> alters this s0 r"
  by (cases r) (auto intro: frame_changed)

lemma changed_set_size: "changed this s0 s \<Longrightarrow> changed this s0 (set_size this n s)"
  by (auto simp: changed_def set_size_def buffer_of_def)

lemma frame_set_data_changed:
  "frame {buffer_of s0 this} s0 s \<Longrightarrow> next_addr s0 \<le> raw_buffer d \<Longrightarrow> changed this s0 (set_data this d s)"
  by (auto simp: frame_def changed_def set_data_def buffer_of_def)

lemma changed_dealloc:
  "changed this s0 s \<Longrightarrow> a = buffer_of s0 this \<or> next_addr s0 \<le> a \<Longrightarrow>
   alters this s0 (Deallocate a s)"
  by (auto simp: Deallocate_def changed_def buffer_of_def split: option.splits)

lemma alters_and_then:
  "alters this s0 m \<Longrightarrow> (\<And>x s1. m = Ok x s1 \<Longrightarrow> changed this s0 s1 \<Longrightarrow> alters this s0 (f x s1)) \<Longrightarrow>
   alters this s0 (and_then m f)"
  by (cases m) auto

lemma alters_if:
  "(c \<Longrightarrow> alters this s0 A) \<Longrightarrow> (\<not> c \<Longrightarrow> alters this s0 B) \<Longrightarrow>
   alters this s0 (if c then A else B)"
  by simp

lemma reach_begin:
  "frame {buffer_of s0 this} s0 s \<Longrightarrow> reach {buffer_of s0 this} s0 (fst (Vector_begin s this))"
  by (simp add: reach_def Vector_begin_def GetAddress_def buffer_of_def frame_def)

lemma reach_end:
  "frame {buffer_of s0 this} s0 s \<Longrightarrow> reach {buffer_of s0 this} s0 (fst (Vector_end s this))"
  by (simp add: reach_def Vector_end_def GetAddress_def buffer_of_def frame_def ptr_add_def)

lemma reach_fresh: "next_addr s0 \<le> b \<Longrightarrow> reach W s0 b"
  by (simp add: reach_def)

lemma CopyOrMove_keeps:
  "frame W s0 s \<Longrightarrow> reach W s0 (fst (Vector_begin s this)) \<Longrightarrow> reach W s0 (raw_buffer nd) \<Longrightarrow>
   keeps W s0 (CopyOrMove T this nd s)"
  by (simp add: CopyOrMove_def uninitialized_move_n_def uninitialized_copy_n_def GetAddress_def
      uninitialized_move_loop_keeps uninitialized_copy_loop_keeps)

lemma grow_tail_post:
  assumes "frame {buffer_of s0 this} s0 s3"
  shows "post (and_then (destroy_n (Vector_begin s3 this) (Size s3 this) s3) (\<lambda>_ s4.
                 Ok (vec_data (vecs s4 this)) (set_data this nd s4)))
              (\<lambda>old s5. raw_buffer old = buffer_of s0 this \<and>
                  (\<exists>s4. frame {buffer_of s0 this} s0 s4 \<and> s5 = set_data this nd s4))
              (frame {buffer_of s0 this} s0)"
proof -
  have k: "keeps {buffer_of s0 this} s0 (destroy_n (Vector_begin s3 this) (Size s3 this) s3)"
    by (rule destroy_n_keeps[OF assms reach_begin[OF assms]])
  show ?thesis
  proof (cases "destroy_n (Vector_begin s3 this) (Size s3 this) s3")
    case (Ok x s4)
    then have f: "frame {buffer_of s0 this} s0 s4" using k by simp
    then have "raw_buffer (vec_data (vecs s4 this)) = buffer_of s0 this"
      by (simp add: frame_def buffer_of_def)
    then show ?thesis using Ok f by auto
  next
    case (Throw e s4)
    then show ?thesis using k by simp
  next
    case UB
    then show ?thesis by simp
  qed
qed

lemma with_new_data_alters:
  assumes G: "frame {buffer_of s0 this} s0 s" and n0: "n \<noteq> 0"
    and body: "\<And>b s1. frame {buffer_of s0 this} s0 s1 \<Longrightarrow> next_addr s0 \<le> b \<Longrightarrow>
       post (body \<lparr>raw_buffer = b, raw_capacity = n\<rparr> s1)
            (\<lambda>old s5. raw_buffer old = buffer_of s0 this \<and>
                  (\<exists>s4. frame {buffer_of s0 this} s0 s4 \<and>
                        s5 = set_data this \<lparr>raw_buffer = b, raw_capacity = n\<rparr> s4))
            (frame {buffer_of s0 this} s0)"
  shows "alters this s0 (with_new_data T n body s)"
proof (cases "fails T (ticks s)")
  case True
  then have "with_new_data T n body s = Throw BadAlloc (s\<lparr>ticks := Suc (ticks s)\<rparr>)"
    using n0 by (simp add: with_new_data_def RawMemory_sized_def Allocate_def fallible_def)
  moreover have "frame {buffer_of s0 this} s0 (s\<lparr>ticks := Suc (ticks s)\<rparr>)"
    using G by (simp add: frame_def)
  ultimately show ?thesis by (simp add: frame_changed)
next
  case False
  define b where "b = next_addr s"
  define s1 where "s1 = s\<lparr>blocks := (blocks s)(b \<mapsto> slots T n), next_addr := Suc b, ticks := Suc (ticks s)\<rparr>"
  let ?nd = "\<lparr>raw_buffer = b, raw_capacity = n\<rparr>"
  have al: "RawMemory_sized T n s = Ok ?nd s1"
    using False n0 by (simp add: RawMemory_sized_def Allocate_def fallible_def s1_def b_def)
  have b: "next_addr s0 \<le> b" using G by (simp add: frame_def b_def)
  have "frame {} s s1" using G by (auto simp: frame_def s1_def b_def)
  then have G1: "frame {buffer_of s0 this} s0 s1" by (rule frame_trans[OF G]) simp
  note B = body[OF G1 b]
  show ?thesis
  proof (cases "body ?nd s1")
    case (Ok old s5)
    with B obtain s4 where o: "raw_buffer old = buffer_of s0 this"
      and f: "frame {buffer_of s0 this} s0 s4" and s5: "s5 = set_data this ?nd s4" by auto
    have "changed this s0 s5" unfolding s5 by (rule frame_set_data_changed[OF f]) (simp add: b)
    then have "alters this s0 (Deallocate (raw_buffer old) s5)"
      by (rule changed_dealloc) (simp add: o)
    then show ?thesis using al Ok by (simp add: with_new_data_def RawMemory_destroy_def)
  next
    case (Throw e s2)
    with B have f: "frame {buffer_of s0 this} s0 s2" by simp
    have "keeps {buffer_of s0 this} s0 (Deallocate b s2)"
      by (rule Deallocate_keeps[OF f reach_fresh[OF b]])
    then have "alters this s0 (rethrow e (Deallocate b s2) :: (unit, 'a) result)"
      by (intro keeps_alters keeps_rethrow)
    then show ?thesis using al Throw by (simp add: with_new_data_def RawMemory_destroy_def)
  next
    case UB
    then show ?thesis using al by (simp add: with_new_data_def)
  qed
qed

lemma keeps_post: "keeps W s0 r \<Longrightarrow> post r (\<lambda>_. frame W s0) (frame W s0)"
  by (simp add: keeps_def)

lemma Reserve_alters: "alters this s (Reserve T this n s)"
proof (cases "n \<le> Capacity s this")
  case True
  then show ?thesis by (simp add: Reserve_def frame_changed)
next
  case False
  then have n0: "n \<noteq> 0" by auto
  show ?thesis
    unfolding Reserve_def using False
    apply simp
    apply (rule with_new_data_alters[OF frame_refl n0])
    apply (rule post_and_then[OF keeps_post[OF CopyOrMove_keeps]])
       apply assumption
      apply (erule reach_begin)
     apply (simp add: reach_fresh)
    apply (erule grow_tail_post)
    done
qed

lemma EmplaceBack_alters: "alters this s (EmplaceBack T this a s)"
proof -
  have g: "alters this s (with_new_data T (if Size s this = 0 then 1 else Capacity s this * 2)
       (\<lambda>new_data s1.
            and_then (construct T (ptr_add (GetAddress new_data) (Size s1 this)) a s1) (\<lambda>_ s2.
            and_then (CopyOrMove T this new_data s2) (\<lambda>_ s3.
            and_then (destroy_n (Vector_begin s3 this) (Size s3 this) s3) (\<lambda>_ s4.
            Ok (vec_data (vecs s4 this)) (set_data this new_data s4))))) s)"
    if "Size s this = Capacity s this"
  proof (rule with_new_data_alters[OF frame_refl])
    show "(if Size s this = 0 then 1 else Capacity s this * 2) \<noteq> 0" using that by auto
  next
    fix b s1 assume f: "frame {buffer_of s this} s s1" and b: "next_addr s \<le> b"
    show "post (and_then (construct T (ptr_add (GetAddress \<lparr>raw_buffer = b, raw_capacity = (if Size s this = 0 then 1 else Capacity s this * 2)\<rparr>) (Size s1 this)) a s1) (\<lambda>_ s2.
            and_then (CopyOrMove T this \<lparr>raw_buffer = b, raw_capacity = (if Size s this = 0 then 1 else Capacity s this * 2)\<rparr> s2) (\<lambda>_ s3.
            and_then (destroy_n (Vector_begin s3 this) (Size s3 this) s3) (\<lambda>_ s4.
            Ok (vec_data (vecs s4 this)) (set_data this \<lparr>raw_buffer = b, raw_capacity = (if Size s this = 0 then 1 else Capacity s this * 2)\<rparr> s4)))))
         (\<lambda>old s5. raw_buffer old = buffer_of s this \<and>
              (\<exists>s4. frame {buffer_of s this} s s4 \<and>
                    s5 = set_data this \<lparr>raw_buffer = b, raw_capacity = (if Size s this = 0 then 1 else Capacity s this * 2)\<rparr> s4))
         (frame {buffer_of s this} s)"
      apply (rule post_and_then[OF keeps_post[OF construct_keeps[OF f]]])
       apply (simp add: GetAddress_def reach_fresh[OF b])
      apply (rule post_and_then[OF keeps_post[OF CopyOrMove_keeps]])
         apply assumption
        apply (erule reach_begin)
       apply (simp add: reach_fresh[OF b])
      apply (erule grow_tail_post)
      done
  qed
  have i: "alters this s (construct T (Vector_end s this) a s)"
    by (intro keeps_alters construct_keeps frame_refl reach_end)
  show ?thesis
    unfolding EmplaceBack_def
    apply (rule alters_and_then)
     apply (rule alters_if)
      apply (erule g)
     apply (rule i)
    apply (simp add: changed_set_size)
    done
qed

lemma buffer_of_set_size [simp]: "buffer_of (set_size this n s) r = buffer_of s r"
  by (simp add: buffer_of_def set_size_def)

lemma changed_keeps_buffer:
  assumes c: "changed this s0 s" and k: "keeps {buffer_of s this} s r"
  shows "alters this s0 r"
proof -
  have "changed this s0 s'" if f: "frame {buffer_of s this} s s'" for s'
  proof -
    have v: "vecs s' = vecs s" using f by (simp add: frame_def)
    have b: "buffer_of s' this = buffer_of s this" by (simp add: buffer_of_def v)
    show ?thesis
      unfolding changed_def
    proof (intro conjI allI impI)
      show "\<And>r. r \<noteq> this \<Longrightarrow> vecs s' r = vecs s0 r" using c v by (simp add: changed_def)
      show "next_addr s0 \<le> next_addr s'" using c f by (auto simp: changed_def frame_def)
      show "buffer_of s' this = buffer_of s0 this \<or> next_addr s0 \<le> buffer_of s' this"
        using c b by (simp add: changed_def)
    next
      fix a assume a: "a < next_addr s0 \<and> a \<noteq> buffer_of s0 this"
      then have 1: "blocks s a = blocks s0 a \<and> (\<forall>i. mem s (a, i) = mem s0 (a, i))"
        using c by (simp add: changed_def)
      have "a \<noteq> buffer_of s this" using a c by (auto simp: changed_def)
      moreover have "a < next_addr s" using a c by (auto simp: changed_def)
      ultimately have 2: "blocks s' a = blocks s a \<and> (\<forall>i. mem s' (a, i) = mem s (a, i))"
        using f by (simp add: frame_def)
      show "blocks s' a = blocks s0 a" using 1 2 by simp
      show "\<And>i. mem s' (a, i) = mem s0 (a, i)" using 1 2 by simp
    next
      assume n: "0 < next_addr s0 \<and> blocks s0 nullptr = None"
      then have 1: "blocks s nullptr = None \<and> (\<forall>i. mem s (nullptr, i) = mem s0 (nullptr, i))"
        using c by (simp add: changed_def)
      have "0 < next_addr s" using n c by (auto simp: changed_def)
      then have 2: "blocks s' nullptr = None \<and> (\<forall>i. mem s' (nullptr, i) = mem s (nullptr, i))"
        using f 1 by (simp add: frame_def)
      show "blocks s' nullptr = None" using 2 by simp
      show "\<And>i. mem s' (nullptr, i) = mem s0 (nullptr, i)" using 1 2 by simp
    qed
  qed
  then show ?thesis using k by (cases r) auto
qed

lemma reach_self: "reach {a} s a"
  by (simp add: reach_def)

lemma fst_begin: "fst (Vector_begin s this) = buffer_of s this"
  by (simp add: Vector_begin_def GetAddress_def buffer_of_def)

lemma fst_end: "fst (Vector_end s this) = buffer_of s this"
  by (simp add: Vector_end_def GetAddress_def buffer_of_def ptr_add_def)

lemma PushBack_alters: "alters this s (PushBack T this a s)"
  unfolding PushBack_def by (rule alters_and_then[OF EmplaceBack_alters]) simp

lemma PopBack_alters: "alters this s (PopBack this s)"
  unfolding PopBack_def
  apply (rule alters_if)
   apply simp
  apply (rule alters_and_then)
   apply (rule keeps_alters[OF destroy_at_keeps[OF frame_refl]])
   apply (simp add: fst_end reach_self)
  apply (simp add: changed_set_size)
  done

lemma Erase_alters: "alters this s (Erase T this pos s)"
proof -
  have 1: "alters this s (std_move T (ptr_add (Vector_begin s this) j) n (ptr_add (Vector_begin s this) k) s)"
    for j n k
    by (rule keeps_alters[OF std_move_keeps[OF frame_refl]]) (simp_all add: fst_begin reach_self)
  have 2: "alters this s (destroy_at (Vector_end (set_size this n s1) this) (set_size this n s1))"
    if "changed this s s1" for s1 n
    apply (rule changed_keeps_buffer[OF changed_set_size[OF that]])
    apply (rule destroy_at_keeps[OF frame_refl])
    apply (simp add: fst_end reach_self)
    done
  show ?thesis
    unfolding Erase_def Let_def
    apply (rule alters_if, simp)+
    apply (rule alters_and_then[OF 1])
    apply (rule alters_and_then[OF 2])
     apply assumption
    apply simp
    done
qed

lemma Resize_alters: "alters this s (Resize T this n s)"
proof -
  have 1: "alters this s (destroy_n (ptr_add (Vector_begin s this) n) k s)" for k
    by (rule keeps_alters[OF destroy_n_keeps[OF frame_refl]]) (simp add: fst_begin reach_self)
  have 2: "alters this s (uninitialized_value_construct_n T (ptr_add (Vector_begin s1 this) j) k s1)"
    if "changed this s s1" for s1 j k
    unfolding uninitialized_value_construct_n_def
    apply (rule changed_keeps_buffer[OF that])
    apply (rule uninitialized_value_construct_loop_keeps[OF frame_refl])
    apply (simp add: fst_begin reach_self)
    done
  show ?thesis
    unfolding Resize_def
    apply (rule alters_and_then)
     apply (rule alters_if)
      apply (rule 1)
     apply (rule alters_and_then[OF Reserve_alters])
     apply (erule 2)
    apply (simp add: changed_set_size)
    done
qed

lemma with_no_data_alters:
  assumes "blocks s nullptr = None"
  shows "alters this s (with_new_data T 0 (\<lambda>new_data s1.
           and_then (construct T (ptr_add (GetAddress new_data) k) a s1) (rest new_data)) s)"
proof (cases "fails T (ticks s)")
  case True
  have "changed this s (s\<lparr>ticks := Suc (ticks s)\<rparr>)"
    by (rule frame_changed) (simp add: frame_def)
  then show ?thesis
    using True
    by (simp add: with_new_data_def RawMemory_sized_def Allocate_def construct_def fallible_def
        RawMemory_destroy_def Deallocate_def)
next
  case False
  then show ?thesis
    using assms
    by (cases "arg_value (s\<lparr>ticks := Suc (ticks s)\<rparr>) a")
       (simp_all add: with_new_data_def RawMemory_sized_def Allocate_def construct_def fallible_def
        GetAddress_def ptr_add_def in_block_def)
qed

lemma Emplace_alters:
  assumes null: "blocks s nullptr = None"
  shows "alters this s (Emplace T this pos a s)"
proof -
  let ?W = "{buffer_of s this}"
  have atend: "alters this s (and_then (EmplaceBack T this a s) (\<lambda>_ s1.
          if Size s1 this = 0 then UB else Ok (ptr_sub (Vector_end s1 this) 1) s1))"
    by (rule alters_and_then[OF EmplaceBack_alters]) simp
  have inplace: "alters this s
      (and_then (move_construct T (Vector_end s this) (ptr_sub (Vector_end s this) 1) s) (\<lambda>_ s1.
       and_then (move_backward T (ptr_add (Vector_begin s this) k) (Size s1 this - 1 - k)
                   (Vector_end s1 this) s1) (\<lambda>_ s2.
       assign_temporary T (ptr_add (Vector_begin s this) k) a s2)))" for k
    apply (rule keeps_alters)
    apply (rule keeps_and_then)
     apply (rule move_construct_keeps[OF frame_refl])
      apply (simp add: fst_end reach_self)
     apply (simp add: fst_end reach_self)
    apply (rule keeps_and_then)
     apply (rule move_backward_keeps)
       apply assumption
      apply (erule reach_end)
     apply (simp add: fst_begin reach_self)
    apply (rule assign_temporary_keeps)
     apply assumption
    apply (simp add: fst_begin reach_self)
    done
  have grow: "alters this s
      (with_new_data T n (\<lambda>new_data s1.
         and_then (construct T (ptr_add (GetAddress new_data) k) a s1) (\<lambda>_ s2.
         and_then
           (if nothrow_move_constructible T \<or> \<not> copy_constructible T then
              and_then (uninitialized_move_n T (Vector_begin s2 this) k
                          (GetAddress new_data) s2) (\<lambda>_ s3.
                uninitialized_move_n T (ptr_add (Vector_begin s this) k) (Size s3 this - k)
                  (ptr_add (GetAddress new_data) (k + 1)) s3)
            else
              and_then (uninitialized_copy_n T (Vector_begin s2 this) k
                          (GetAddress new_data) s2) (\<lambda>_ s3.
                uninitialized_copy_n T (ptr_add (Vector_begin s this) k) (Size s3 this - k)
                  (ptr_add (GetAddress new_data) (k + 1)) s3))
           (\<lambda>_ s4.
         and_then (destroy_n (Vector_begin s4 this) (Size s4 this) s4) (\<lambda>_ s5.
         Ok (vec_data (vecs s5 this)) (set_data this new_data s5))))) s)"
    for n k
  proof (cases "n = 0")
    case True
    show ?thesis unfolding True by (rule with_no_data_alters[OF null])
  next
    case n0: False
    show ?thesis
  proof (rule with_new_data_alters[OF frame_refl n0])
    fix b s1 assume f: "frame ?W s s1" and b: "next_addr s \<le> b"
    let ?nd = "\<lparr>raw_buffer = b, raw_capacity = n\<rparr>"
    have mv: "keeps ?W s
              (and_then (uninitialized_move_n T (Vector_begin s2 this) k (GetAddress ?nd) s2) (\<lambda>_ s3.
                uninitialized_move_n T (ptr_add (Vector_begin s this) k) (Size s3 this - k)
                  (ptr_add (GetAddress ?nd) (k + 1)) s3))"
      if f2: "frame ?W s s2" for s2
      unfolding uninitialized_move_n_def
      apply (rule keeps_and_then)
       apply (rule uninitialized_move_loop_keeps[OF f2])
        apply (simp add: GetAddress_def reach_fresh[OF b])
       apply (rule reach_begin[OF f2])
      apply (rule uninitialized_move_loop_keeps)
        apply assumption
       apply (simp add: GetAddress_def reach_fresh[OF b])
      apply (simp add: fst_begin reach_self)
      done
    have cp: "keeps ?W s
              (and_then (uninitialized_copy_n T (Vector_begin s2 this) k (GetAddress ?nd) s2) (\<lambda>_ s3.
                uninitialized_copy_n T (ptr_add (Vector_begin s this) k) (Size s3 this - k)
                  (ptr_add (GetAddress ?nd) (k + 1)) s3))"
      if f2: "frame ?W s s2" for s2
      unfolding uninitialized_copy_n_def
      apply (rule keeps_and_then)
       apply (rule uninitialized_copy_loop_keeps[OF f2])
       apply (simp add: GetAddress_def reach_fresh[OF b])
      apply (rule uninitialized_copy_loop_keeps)
       apply assumption
      apply (simp add: GetAddress_def reach_fresh[OF b])
      done
    have tr: "keeps ?W s
           (if nothrow_move_constructible T \<or> \<not> copy_constructible T then
              and_then (uninitialized_move_n T (Vector_begin s2 this) k
                          (GetAddress ?nd) s2) (\<lambda>_ s3.
                uninitialized_move_n T (ptr_add (Vector_begin s this) k) (Size s3 this - k)
                  (ptr_add (GetAddress ?nd) (k + 1)) s3)
            else
              and_then (uninitialized_copy_n T (Vector_begin s2 this) k
                          (GetAddress ?nd) s2) (\<lambda>_ s3.
                uninitialized_copy_n T (ptr_add (Vector_begin s this) k) (Size s3 this - k)
                  (ptr_add (GetAddress ?nd) (k + 1)) s3))"
      if f2: "frame ?W s s2" for s2
      using mv[OF f2] cp[OF f2] by (simp only: if_split) simp
    show "post (and_then (construct T (ptr_add (GetAddress ?nd) k) a s1) (\<lambda>_ s2.
         and_then
           (if nothrow_move_constructible T \<or> \<not> copy_constructible T then
              and_then (uninitialized_move_n T (Vector_begin s2 this) k
                          (GetAddress ?nd) s2) (\<lambda>_ s3.
                uninitialized_move_n T (ptr_add (Vector_begin s this) k) (Size s3 this - k)
                  (ptr_add (GetAddress ?nd) (k + 1)) s3)
            else
              and_then (uninitialized_copy_n T (Vector_begin s2 this) k
                          (GetAddress ?nd) s2) (\<lambda>_ s3.
                uninitialized_copy_n T (ptr_add (Vector_begin s this) k) (Size s3 this - k)
                  (ptr_add (GetAddress ?nd) (k + 1)) s3))
           (\<lambda>_ s4.
         and_then (destroy_n (Vector_begin s4 this) (Size s4 this) s4) (\<lambda>_ s5.
         Ok (vec_data (vecs s5 this)) (set_data this ?nd s5)))))
         (\<lambda>old s5. raw_buffer old = buffer_of s this \<and>
              (\<exists>s4. frame ?W s s4 \<and> s5 = set_data this ?nd s4))
         (frame ?W s)"
      apply (rule post_and_then[OF keeps_post[OF construct_keeps[OF f]]])
       apply (simp add: GetAddress_def reach_fresh[OF b])
      apply (rule post_and_then[OF keeps_post[OF tr]])
       apply assumption
      apply (erule grow_tail_post)
      done
  qed
  qed
  have fin: "alters this s (let s7 = set_size this (Suc (Size s6 this)) s6
               in Ok (ptr_add (Vector_begin s7 this) k) s7)"
    if "changed this s s6" for s6 k
    using that by (simp add: Let_def changed_set_size)
  show ?thesis
    unfolding Emplace_def Let_def
    apply (rule alters_if)
     apply (rule atend)
    apply (rule alters_if, simp)+
    apply (rule alters_and_then)
     apply (rule alters_if)
      apply (rule inplace)
     apply (rule grow)
    apply (simp add: changed_set_size)
    done
qed

lemma Insert_alters: "blocks s nullptr = None \<Longrightarrow> alters this s (Insert T this pos a s)"
  unfolding Insert_def by (rule Emplace_alters)

section \<open>Copy construction and copy assignment\<close>

lemma intact_refl [simp]: "intact A s s"
  by (simp add: intact_def)

lemma intact_trans: "intact A s s1 \<Longrightarrow> intact A s1 s2 \<Longrightarrow> intact A s s2"
  by (simp add: intact_def buffer_of_def)

lemma intact_unchanged: "intact A s s' \<Longrightarrow> unchanged A s s'"
  by (simp add: intact_def unchanged_def Size_def Capacity_def Vector_index_def obj_def
      in_block_def Vector_begin_def GetAddress_def ptr_add_def buffer_of_def)

lemma changed_intact:
  assumes c: "changed B s s'" and p: "separate s A B"
  shows "intact A s s' \<and> separate s' A B"
proof -
  have ab: "A \<noteq> B" and n0: "0 < next_addr s" and b0: "blocks s nullptr = None"
    and al: "buffer_of s A < next_addr s"
    and sh: "buffer_of s A = buffer_of s B \<Longrightarrow> buffer_of s A = nullptr"
    using p by (simp_all add: separate_def)
  have v: "vecs s' A = vecs s A" using c ab by (simp add: changed_def)
  then have bA: "buffer_of s' A = buffer_of s A" by (simp add: buffer_of_def)
  have nx: "next_addr s \<le> next_addr s'" using c by (simp add: changed_def)
  have z: "blocks s' nullptr = None \<and> (\<forall>i. mem s' (nullptr, i) = mem s (nullptr, i))"
    using c n0 b0 by (simp add: changed_def)
  have o: "blocks s' (buffer_of s A) = blocks s (buffer_of s A) \<and>
           (\<forall>i. mem s' (buffer_of s A, i) = mem s (buffer_of s A, i))"
  proof (cases "buffer_of s A = buffer_of s B")
    case True
    then have "buffer_of s A = nullptr" by (rule sh)
    then show ?thesis using z b0 by simp
  next
    case False
    then show ?thesis using c al by (simp add: changed_def)
  qed
  have i: "intact A s s'" using v o by (simp add: intact_def)
  have "buffer_of s' B = buffer_of s B \<or> next_addr s \<le> buffer_of s' B"
    using c by (simp add: changed_def)
  then have "buffer_of s' A = buffer_of s' B \<longrightarrow> buffer_of s' A = nullptr"
    using bA sh al by auto
  then have "separate s' A B"
    using ab n0 nx z bA al by (simp add: separate_def)
  then show ?thesis using i by simp
qed

lemma alters_discard: "alters this s r \<Longrightarrow> alters this s (discard r)"
  by (cases r) simp_all

lemma mutate_alters: "blocks s nullptr = None \<Longrightarrow> alters this s (mutate T this m s)"
  by (cases m)
     (simp_all add: Reserve_alters Resize_alters PushBack_alters PopBack_alters alters_discard
        EmplaceBack_alters Insert_alters Emplace_alters Erase_alters)

lemma mutations_intact:
  "separate s A B \<Longrightarrow> mutations T B ms s = Some s' \<Longrightarrow> intact A s s'"
proof (induction ms arbitrary: s)
  case Nil
  then show ?case by simp
next
  case (Cons m ms)
  have b0: "blocks s nullptr = None" using Cons.prems(1) by (simp add: separate_def)
  note al = mutate_alters[OF b0, of B T m]
  show ?case
  proof (cases "mutate T B m s")
    case (Ok x s1)
    then have "changed B s s1" using al by simp
    then have 1: "intact A s s1" "separate s1 A B"
      using changed_intact[OF _ Cons.prems(1)] by simp_all
    have "mutations T B ms s1 = Some s'" using Cons.prems(2) Ok by simp
    then have "intact A s1 s'" by (rule Cons.IH[OF 1(2)])
    then show ?thesis using 1(1) by (rule intact_trans[rotated])
  next
    case (Throw e s1)
    then have "changed B s s1" using al by simp
    then have 1: "intact A s s1" "separate s1 A B"
      using changed_intact[OF _ Cons.prems(1)] by simp_all
    have "mutations T B ms s1 = Some s'" using Cons.prems(2) Throw by simp
    then have "intact A s1 s'" by (rule Cons.IH[OF 1(2)])
    then show ?thesis using 1(1) by (rule intact_trans[rotated])
  next
    case UB
    then show ?thesis using Cons.prems(2) by simp
  qed
qed

lemma Vector_copy_empty:
  "Size s A = 0 \<Longrightarrow>
   Vector_copy T A s = Ok \<lparr>vec_data = \<lparr>raw_buffer = nullptr, raw_capacity = 0\<rparr>, vec_size = 0\<rparr> s"
  by (simp add: Vector_copy_def RawMemory_sized_def Allocate_def uninitialized_copy_n_def)

lemma Vector_copy_ok:
  assumes w: "wf_state s A" and c: "calm T s" and n: "Size s A = n" and n0: "n \<noteq> 0"
    and a: "buffer_of s A = a" and ft: "fits T n"
  shows "Vector_copy T A s =
     Ok \<lparr>vec_data = \<lparr>raw_buffer = next_addr s, raw_capacity = n\<rparr>, vec_size = n\<rparr>
        (s\<lparr>blocks := (blocks s)(next_addr s \<mapsto> n), next_addr := Suc (next_addr s),
           mem := cpy (a, 0) (next_addr s, 0) 0 n (mem s), ticks := Suc (ticks s + n)\<rparr>)"
proof -
  let ?b = "next_addr s"
  let ?s1 = "s\<lparr>blocks := (blocks s)(?b \<mapsto> n), next_addr := Suc ?b, ticks := Suc (ticks s)\<rparr>"
  have wh: "wf_heap s" and wv: "wf_vec s A" using w by (simp_all add: wf_state_def)
  note D = wf_vecD[OF wv refl refl refl]
  have nc: "n \<le> Capacity s A" using D(1) n by (simp add: Size_def Capacity_def)
  then have c0: "Capacity s A \<noteq> 0" using n0 by simp
  then have ba: "blocks s a = Some (Capacity s A)" and al: "a < ?b"
    using D(3) a by (simp_all add: Capacity_def buffer_of_def)
  have nf: "\<not> fails T (ticks s)" using c by (simp add: calm_def)
  have al1: "RawMemory_sized T n s = Ok \<lparr>raw_buffer = ?b, raw_capacity = n\<rparr> ?s1"
    using nf n0 ft by (simp add: RawMemory_sized_def Allocate_ok)
  have bg: "Vector_begin ?s1 A = (a, 0)"
    using a by (simp add: Vector_begin_def GetAddress_def buffer_of_def)
  have live: "\<forall>k. 0 \<le> k \<and> k < 0 + n \<longrightarrow> mem ?s1 (fst (a, 0::nat), snd (a, 0::nat) + k) \<noteq> None"
    using D(4) n a by (simp add: Size_def buffer_of_def)
  have cw: "\<forall>k. k < n \<longrightarrow> \<not> fails T (ticks ?s1 + k)" using c by (simp add: calm_def)
  have cp: "uninitialized_copy_loop T (a, 0) (?b, 0) 0 n ?s1 =
          Ok () (?s1\<lparr>mem := cpy (a, 0) (?b, 0) 0 n (mem ?s1), ticks := ticks ?s1 + n\<rparr>)"
    apply (rule uninitialized_copy_loop_ok[where cf = "Capacity s A" and cd = n])
    using al ba nc live cw by simp_all
  show ?thesis
    unfolding Vector_copy_def n
    by (simp add: al1 bg uninitialized_copy_n_def GetAddress_def cp)
qed

lemma Vector_index_eq:
  "Vector_index s this i =
     (if i < vec_size (vecs s this) then
        (case blocks s (buffer_of s this) of
           None \<Rightarrow> None
         | Some c \<Rightarrow> if i < c then mem s (buffer_of s this, i) else None)
      else None)"
  by (simp add: Vector_index_def obj_def in_block_def Vector_begin_def GetAddress_def ptr_add_def
      buffer_of_def Size_def split: option.splits)

lemma wf_separate:
  assumes "wf_state s A" and "A \<noteq> B" and "buffer_of s A = buffer_of s B \<longrightarrow> buffer_of s A = nullptr"
  shows "separate s A B"
proof -
  have wh: "wf_heap s" and wv: "wf_vec s A" using assms(1) by (simp_all add: wf_state_def)
  note D = wf_vecD[OF wv refl refl refl]
  have "buffer_of s A < next_addr s"
    using D(2) D(3) wh by (cases "raw_capacity (vec_data (vecs s A)) = 0") (auto simp: buffer_of_def wf_heap_def)
  then show ?thesis using wh assms(2,3) by (simp add: separate_def wf_heap_def)
qed

lemma Vector_copy_ctor_ok:
  assumes w: "wf_state s A" and c: "calm T s" and ab: "A \<noteq> B" and ft: "fits T (Size s A)"
  shows "\<exists>s'. Vector_copy_ctor T B A s = Ok () s' \<and> Size s' B = Size s A \<and>
              (\<forall>i. Vector_index s' B i = Vector_index s A i) \<and> intact A s s' \<and> separate s' A B"
proof -
  have wh: "wf_heap s" and wv: "wf_vec s A" using w by (simp_all add: wf_state_def)
  note D = wf_vecD[OF wv refl refl refl]
  define a where "a = buffer_of s A"
  define n where "n = Size s A"
  have al: "a < next_addr s"
    using D(2) D(3) wh
    by (cases "raw_capacity (vec_data (vecs s A)) = 0") (auto simp: a_def buffer_of_def wf_heap_def)
  have h0: "0 < next_addr s" "blocks s nullptr = None" using wh by (simp_all add: wf_heap_def)
  show ?thesis
  proof (cases "n = 0")
    case True
    let ?s' = "s\<lparr>vecs := (vecs s)(B := \<lparr>vec_data = \<lparr>raw_buffer = nullptr, raw_capacity = 0\<rparr>, vec_size = 0\<rparr>)\<rparr>"
    have r: "Vector_copy_ctor T B A s = Ok () ?s'"
      using True by (simp add: Vector_copy_ctor_def Vector_copy_empty n_def)
    have 1: "Size ?s' B = Size s A" using True by (simp add: Size_def n_def)
    have 2: "Vector_index ?s' B i = Vector_index s A i" for i
      using True by (simp add: Vector_index_def Size_def n_def)
    have 3: "intact A s ?s'" using ab by (simp add: intact_def)
    have 4: "separate ?s' A B"
      using ab h0 al by (simp add: separate_def buffer_of_def a_def)
    show ?thesis using r 1 2 3 4 by (intro exI[where x = ?s']) simp
  next
    case False
    let ?b = "next_addr s"
    let ?s1 = "s\<lparr>blocks := (blocks s)(?b \<mapsto> n), next_addr := Suc ?b,
           mem := cpy (a, 0) (?b, 0) 0 n (mem s), ticks := Suc (ticks s + n)\<rparr>"
    let ?s' = "?s1\<lparr>vecs := (vecs ?s1)(B := \<lparr>vec_data = \<lparr>raw_buffer = ?b, raw_capacity = n\<rparr>, vec_size = n\<rparr>)\<rparr>"
    have r: "Vector_copy_ctor T B A s = Ok () ?s'"
      unfolding Vector_copy_ctor_def
      by (simp add: Vector_copy_ok[OF w c n_def[symmetric] False a_def[symmetric] ft[folded n_def]])
    have nc: "n \<le> raw_capacity (vec_data (vecs s A))" using D(1) by (simp add: n_def Size_def)
    then have ba: "blocks s a = Some (raw_capacity (vec_data (vecs s A)))"
      using D(3) False by (simp add: a_def buffer_of_def)
    have 1: "Size ?s' B = Size s A" by (simp add: Size_def n_def)
    have e: "buffer_of s A = a" "raw_buffer (vec_data (vecs s A)) = a" "vec_size (vecs s A) = n"
      by (simp_all add: a_def buffer_of_def n_def Size_def)
    have 2: "Vector_index ?s' B i = Vector_index s A i" for i
      using nc ba al ab by (simp add: Vector_index_eq buffer_of_def e cpy_def)
    have 3: "intact A s ?s'"
      using ab al by (simp add: intact_def e cpy_def)
    have 4: "separate ?s' A B"
      using ab h0 al by (simp add: separate_def buffer_of_def a_def)
    show ?thesis using r 1 2 3 4 by (intro exI[where x = ?s']) simp
  qed
qed

lemma Vector_copy_assign_ok:
  assumes w: "wf_state s A" and wB: "wf_vec s B" and c: "calm T s" and ab: "A \<noteq> B"
    and sep: "Capacity s B \<noteq> 0 \<longrightarrow> buffer_of s B \<noteq> buffer_of s A" and ft: "fits T (Size s A)"
  shows "\<exists>s'. Vector_copy_assign T B A s = Ok () s' \<and> Size s' B = Size s A \<and>
              (\<forall>i. Vector_index s' B i = Vector_index s A i) \<and> intact A s s' \<and> separate s' A B"
proof -
  have wh: "wf_heap s" and wv: "wf_vec s A" using w by (simp_all add: wf_state_def)
  note D = wf_vecD[OF wv refl refl refl]
  note E = wf_vecD[OF wB refl refl refl]
  define a where "a = buffer_of s A"
  define n where "n = Size s A"
  define cA where "cA = Capacity s A"
  define b where "b = buffer_of s B"
  define m where "m = Size s B"
  define cB where "cB = Capacity s B"
  have eA: "buffer_of s A = a" "raw_buffer (vec_data (vecs s A)) = a" "vec_size (vecs s A) = n"
    "Size s A = n" "Capacity s A = cA" "raw_capacity (vec_data (vecs s A)) = cA"
    by (simp_all add: a_def buffer_of_def n_def Size_def cA_def Capacity_def)
  have eB: "buffer_of s B = b" "raw_buffer (vec_data (vecs s B)) = b" "vec_size (vecs s B) = m"
    "Size s B = m" "Capacity s B = cB" "raw_capacity (vec_data (vecs s B)) = cB"
    by (simp_all add: b_def buffer_of_def m_def Size_def cB_def Capacity_def)
  have h0: "0 < next_addr s" "blocks s nullptr = None" using wh by (simp_all add: wf_heap_def)
  have nA: "n \<le> cA" and mB: "m \<le> cB" using D(1) E(1) by (simp_all add: eA eB)
  have A0: "cA = 0 \<Longrightarrow> a = nullptr" and B0: "cB = 0 \<Longrightarrow> b = nullptr"
    using D(2) E(2) by (simp_all add: eA eB)
  have A1: "cA \<noteq> 0 \<Longrightarrow> blocks s a = Some cA \<and> a < next_addr s \<and> a \<noteq> nullptr"
    using D(3) h0 by (cases "a = nullptr") (auto simp: eA)
  have B1: "cB \<noteq> 0 \<Longrightarrow> blocks s b = Some cB \<and> b < next_addr s \<and> b \<noteq> nullptr \<and> b \<noteq> a"
    using E(3) h0 sep by (cases "b = nullptr") (auto simp: eA eB)
  have lA: "\<And>i. i < n \<Longrightarrow> mem s (a, i) \<noteq> None" using D(4) by (simp add: eA)
  have lB: "\<And>i. i < m \<Longrightarrow> mem s (b, i) \<noteq> None" using E(4) by (simp add: eB)
  have al: "a < next_addr s" using A0 A1 h0 by (cases "cA = 0") auto
  have bl: "b < next_addr s" using B0 B1 h0 by (cases "cB = 0") auto
  have bg: "Vector_begin s A = (a, 0)" "Vector_begin s B = (b, 0)"
    by (simp_all add: Vector_begin_def GetAddress_def eA eB)
  have iA: "Vector_index s A i = (if i < n then mem s (a, i) else None)" for i
    using nA A1 by (cases "cA = 0") (auto simp: Vector_index_eq eA)
  consider (swap) "cB < n" | (clear) "n = 0" | (shrink) "n \<noteq> 0" "n \<le> cB" "n < m"
    | (grow) "n \<noteq> 0" "n \<le> cB" "m \<le> n"
    by linarith
  then show ?thesis
  proof cases
    case swap
    then have n0: "n \<noteq> 0" by simp
    then have cA0: "cA \<noteq> 0" using nA by simp
    let ?b = "next_addr s"
    let ?v = "\<lparr>vec_data = \<lparr>raw_buffer = ?b, raw_capacity = n\<rparr>, vec_size = n\<rparr>"
    let ?s1 = "s\<lparr>blocks := (blocks s)(?b \<mapsto> n), next_addr := Suc ?b,
           mem := cpy (a, 0) (?b, 0) 0 n (mem s), ticks := Suc (ticks s + n),
           vecs := (vecs s)(B := ?v)\<rparr>"
    let ?s2 = "?s1\<lparr>mem := kill (b, 0) m (mem ?s1)\<rparr>"
    let ?s' = "?s2\<lparr>blocks := (blocks ?s2)(b := None)\<rparr>"
    have cp: "Vector_copy T A s = Ok ?v (s\<lparr>blocks := (blocks s)(?b \<mapsto> n), next_addr := Suc ?b,
           mem := cpy (a, 0) (?b, 0) 0 n (mem s), ticks := Suc (ticks s + n)\<rparr>)"
      by (rule Vector_copy_ok[OF w c eA(4) n0 eA(1) ft[unfolded eA]])
    have d: "destroy_n (b, 0) m ?s1 = Ok () ?s2"
    proof (rule destroy_n_ok'[where c = cB])
      show "m = 0 \<or> blocks ?s1 b = Some cB \<and> 0 + m \<le> cB \<and>
              (\<forall>j. 0 \<le> j \<and> j < 0 + m \<longrightarrow> mem ?s1 (b, j) \<noteq> None)"
      proof (cases "m = 0")
        case False
        then have "cB \<noteq> 0" using mB by simp
        then show ?thesis using B1 mB lB by (auto simp: cpy_def)
      qed simp
    qed
    have de: "Deallocate b ?s2 = Ok () ?s'"
      by (rule Deallocate_ok) (use B0 B1 h0 in \<open>cases "cB = 0"; auto\<close>)
    have r: "Vector_copy_assign T B A s = Ok () ?s'"
      using swap ab d de
      by (simp add: Vector_copy_assign_def eA eB cp Vector_destroy_def GetAddress_def
          RawMemory_destroy_def)
    have nab: "a \<noteq> b" using A1 B0 B1 cA0 by (cases "cB = 0") auto
    have 1: "Size ?s' B = Size s A" by (simp add: Size_def eA)
    have 2: "Vector_index ?s' B i = Vector_index s A i" for i
      unfolding iA using bl by (simp add: Vector_index_eq buffer_of_def kill_def cpy_def)
    have 3: "intact A s ?s'"
      using ab al nab by (simp add: intact_def eA cpy_def kill_def)
    have 4: "separate ?s' A B"
      using ab h0 al by (simp add: separate_def buffer_of_def eA)
    show ?thesis using r 1 2 3 4 by (intro exI[where x = ?s']) simp
  next
    case clear
    let ?s' = "set_size B 0 (s\<lparr>mem := kill (b, 0) m (mem s)\<rparr>)"
    have d: "destroy_n (b, 0) m s = Ok () (s\<lparr>mem := kill (b, 0) m (mem s)\<rparr>)"
    proof (rule destroy_n_ok'[where c = cB])
      show "m = 0 \<or> blocks s b = Some cB \<and> 0 + m \<le> cB \<and>
              (\<forall>j. 0 \<le> j \<and> j < 0 + m \<longrightarrow> mem s (b, j) \<noteq> None)"
      proof (cases "m = 0")
        case False
        then have "cB \<noteq> 0" using mB by simp
        then show ?thesis using B1 mB lB by auto
      qed simp
    qed
    have k0: "m = 0 \<Longrightarrow> s\<lparr>mem := kill (b, 0) m (mem s)\<rparr> = s" by simp
    have r: "Vector_copy_assign T B A s = Ok () ?s'"
      using clear ab d
      by (cases "m = 0")
         (simp_all add: Vector_copy_assign_def eA eB bg ptr_add_def Size_def
          uninitialized_copy_n_def)
    have nab: "m \<noteq> 0 \<Longrightarrow> a \<noteq> b" using B1 mB by auto
    have 1: "Size ?s' B = Size s A" using clear by (simp add: Size_def eA set_size_def)
    have 2: "Vector_index ?s' B i = Vector_index s A i" for i
      unfolding iA using clear by (simp add: Vector_index_eq set_size_def)
    have 3: "intact A s ?s'"
      using ab nab by (cases "m = 0") (simp_all add: intact_def eA kill_def set_size_def)
    have 4: "separate ?s' A B"
      using ab h0 al B0 B1 by (cases "cB = 0") (auto simp: separate_def buffer_of_def eA eB set_size_def)
    show ?thesis using r 1 2 3 4 by (intro exI[where x = ?s']) simp
  next
    case shrink
    have cB0: "cB \<noteq> 0" and cA0: "cA \<noteq> 0" using shrink nA by auto
    note A1' = A1[OF cA0] and B1' = B1[OF cB0]
    let ?s1 = "s\<lparr>mem := cpy (a, 0) (b, 0) 0 n (mem s), ticks := ticks s + n\<rparr>"
    let ?s2 = "?s1\<lparr>mem := kill (b, n) (m - n) (mem ?s1)\<rparr>"
    let ?s' = "set_size B n ?s2"
    have sc: "std_copy T (a, 0) n (b, 0) s = Ok () ?s1"
      apply (rule std_copy_ok[where cf = cA and cd = cB])
      using A1' B1' nA shrink lA lB calm_window[OF c] by auto
    have d: "destroy_n (b, n) (m - n) ?s1 = Ok () ?s2"
      apply (rule destroy_n_ok[where c = cB])
      using B1' mB shrink lB by (auto simp: cpy_def)
    have r: "Vector_copy_assign T B A s = Ok () ?s'"
      using shrink ab d
      by (simp add: Vector_copy_assign_def eA eB bg sc ptr_add_def Size_def Vector_begin_def
          GetAddress_def)
    have 1: "Size ?s' B = Size s A" by (simp add: Size_def eA set_size_def)
    have 2: "Vector_index ?s' B i = Vector_index s A i" for i
      unfolding iA using B1' shrink by (simp add: Vector_index_eq buffer_of_def kill_def cpy_def set_size_def eB)
    have 3: "intact A s ?s'"
      using ab B1' by (simp add: intact_def eA cpy_def kill_def set_size_def)
    have 4: "separate ?s' A B"
      using ab h0 al B1' by (auto simp: separate_def buffer_of_def eA eB set_size_def)
    show ?thesis using r 1 2 3 4 by (intro exI[where x = ?s']) simp
  next
    case grow
    have cB0: "cB \<noteq> 0" and cA0: "cA \<noteq> 0" using grow nA by auto
    note A1' = A1[OF cA0] and B1' = B1[OF cB0]
    let ?s1 = "s\<lparr>mem := cpy (a, 0) (b, 0) 0 m (mem s), ticks := ticks s + m\<rparr>"
    let ?s2 = "?s1\<lparr>mem := cpy (a, m) (b, m) 0 (n - m) (mem ?s1), ticks := ticks ?s1 + (n - m)\<rparr>"
    let ?s' = "set_size B n ?s2"
    have sc: "std_copy T (a, 0) m (b, 0) s = Ok () ?s1"
      apply (rule std_copy_ok[where cf = cA and cd = cB])
      using A1' B1' nA mB grow lA lB calm_window[OF c] by auto
    have c1: "calm T ?s1" by (rule calm_later[OF c]) simp
    have uc: "uninitialized_copy_loop T (a, m) (b, m) 0 (n - m) ?s1 = Ok () ?s2"
      apply (rule uninitialized_copy_loop_ok[where cf = cA and cd = cB])
      using A1' B1' nA mB grow lA calm_window[OF c1] by (auto simp: cpy_def)
    have r: "Vector_copy_assign T B A s = Ok () ?s'"
      using grow ab uc
      by (simp add: Vector_copy_assign_def eA eB bg sc ptr_add_def Size_def Vector_begin_def
          GetAddress_def uninitialized_copy_n_def)
    have 1: "Size ?s' B = Size s A" by (simp add: Size_def eA set_size_def)
    have 2: "Vector_index ?s' B i = Vector_index s A i" for i
      unfolding iA using B1' grow by (auto simp: Vector_index_eq buffer_of_def cpy_def set_size_def eB)
    have 3: "intact A s ?s'"
      using ab B1' by (simp add: intact_def eA cpy_def set_size_def)
    have 4: "separate ?s' A B"
      using ab h0 al B1' by (auto simp: separate_def buffer_of_def eA eB set_size_def)
    show ?thesis using r 1 2 3 4 by (intro exI[where x = ?s']) simp
  qed
qed

section \<open>Independence of a copy\<close>

text \<open>
  Let \<open>A\<close> be a well-formed vector and \<open>B\<close> another object, and let nothing fail while
  the copy is made, the request for its block fitting. The copy constructor
  \<^verbatim>\<open>Vector B(A)\<close> returns, and so does the copy assignment \<^verbatim>\<open>B = A\<close> to a well-formed \<open>B\<close>
  that owns another block than \<open>A\<close>. Afterwards \<open>B\<close> has the size of \<open>A\<close> and the same
  element at every index. After any sequence of calls of \<^verbatim>\<open>Reserve\<close>, \<^verbatim>\<open>Resize\<close>,
  \<^verbatim>\<open>PushBack\<close>, \<^verbatim>\<open>PopBack\<close>, \<^verbatim>\<open>EmplaceBack\<close>, \<^verbatim>\<open>Insert\<close>, \<^verbatim>\<open>Emplace\<close> and \<^verbatim>\<open>Erase\<close> on
  \<open>B\<close> that has a final state, whichever of the calls throw, \<open>A\<close> has the size, the
  capacity and the elements it had before the copy. A sequence with a call of undefined
  behaviour has no final state; element writes through \<^verbatim>\<open>operator[]\<close>, \<^verbatim>\<open>Swap\<close> and the
  assignments to \<open>B\<close> are not among the calls.
\<close>

theorem copy_is_independent:
  assumes "wf_state s A" and "calm T s" and "A \<noteq> B" and "fits T (Size s A)"
  shows "(\<exists>s'. Vector_copy_ctor T B A s = Ok () s' \<and> Size s' B = Size s A \<and>
               (\<forall>i. Vector_index s' B i = Vector_index s A i) \<and>
               (\<forall>T' ms s''. mutations T' B ms s' = Some s'' \<longrightarrow> unchanged A s s'')) \<and>
         (wf_vec s B \<and> (Capacity s B \<noteq> 0 \<longrightarrow> buffer_of s B \<noteq> buffer_of s A) \<longrightarrow>
          (\<exists>s'. Vector_copy_assign T B A s = Ok () s' \<and> Size s' B = Size s A \<and>
               (\<forall>i. Vector_index s' B i = Vector_index s A i) \<and>
               (\<forall>T' ms s''. mutations T' B ms s' = Some s'' \<longrightarrow> unchanged A s s'')))"
proof -
  have ind: "\<forall>T' ms s''. mutations T' B ms s' = Some s'' \<longrightarrow> unchanged A s s''"
    if i: "intact A s s'" and p: "separate s' A B" for s'
  proof (intro allI impI)
    fix T' :: "'a elem_type" and ms s''
    assume "mutations T' B ms s' = Some s''"
    then have "intact A s' s''" by (rule mutations_intact[OF p])
    then have "intact A s s''" by (rule intact_trans[OF i])
    then show "unchanged A s s''" by (rule intact_unchanged)
  qed
  have 1: "\<exists>s'. Vector_copy_ctor T B A s = Ok () s' \<and> Size s' B = Size s A \<and>
               (\<forall>i. Vector_index s' B i = Vector_index s A i) \<and>
               (\<forall>T' ms s''. mutations T' B ms s' = Some s'' \<longrightarrow> unchanged A s s'')"
    using Vector_copy_ctor_ok[OF assms] ind by blast
  have 2: "\<exists>s'. Vector_copy_assign T B A s = Ok () s' \<and> Size s' B = Size s A \<and>
               (\<forall>i. Vector_index s' B i = Vector_index s A i) \<and>
               (\<forall>T' ms s''. mutations T' B ms s' = Some s'' \<longrightarrow> unchanged A s s'')"
    if "wf_vec s B" and "Capacity s B \<noteq> 0 \<longrightarrow> buffer_of s B \<noteq> buffer_of s A"
    using Vector_copy_assign_ok[OF assms(1) that(1) assms(2,3) that(2) assms(4)] ind by blast
  show ?thesis using 1 2 by blast
qed

lemma two_vectors_copy_run:
  "\<exists>s' s''. Vector_copy_ctor T_int 2 1 two_vectors = Ok () s' \<and>
     mutations (T_fail_at 3) 2 [CallPopBack, CallPushBack (ByValue 9), CallPushBack (ByValue 8)] s' = Some s'' \<and>
     Size s'' 2 = 2 \<and> Vector_index s'' 2 0 = Some 2 \<and> Vector_index s'' 2 1 = Some 8"
  by (simp add: run_defs slots_T_int(2) slots_T_int_Suc T_int_simps two_vectors_def numeral_2_eq_2
      numeral_3_eq_3)

lemma two_vectors_assign_run:
  "\<exists>s' s''. Vector_copy_assign T_int 0 1 two_vectors = Ok () s' \<and>
     mutations T_int 0 [CallErase 0, CallPushBack (ByValue 9), CallInsert 0 (ByValue 4)] s' = Some s'' \<and>
     Size s'' 0 = 3 \<and> Vector_index s'' 0 0 = Some 4 \<and> Vector_index s'' 0 1 = Some 3 \<and>
     Vector_index s'' 0 2 = Some 9"
  by (simp add: run_defs slots_T_int_Suc T_int_simps two_vectors_def numeral_2_eq_2 numeral_3_eq_3)

theorem copy_is_independent_witness:
  "(\<exists>s' s''. Vector_copy_ctor T_int 2 1 two_vectors = Ok () s' \<and>
      Size s' 2 = Size two_vectors 1 \<and> (\<forall>i. Vector_index s' 2 i = Vector_index two_vectors 1 i) \<and>
      mutations (T_fail_at 3) 2 [CallPopBack, CallPushBack (ByValue 9), CallPushBack (ByValue 8)] s' = Some s'' \<and>
      Vector_index s'' 2 1 = Some 8 \<and> unchanged 1 two_vectors s'') \<and>
   (\<exists>s' s''. Vector_copy_assign T_int 0 1 two_vectors = Ok () s' \<and>
      Size s' 0 = Size two_vectors 1 \<and> (\<forall>i. Vector_index s' 0 i = Vector_index two_vectors 1 i) \<and>
      mutations T_int 0 [CallErase 0, CallPushBack (ByValue 9), CallInsert 0 (ByValue 4)] s' = Some s'' \<and>
      Vector_index s'' 0 0 = Some 4 \<and> unchanged 1 two_vectors s'')"
proof -
  have w1: "wf_state two_vectors 1" and w0: "wf_vec two_vectors 0"
    using wf_two_vectors by (simp_all add: wf_state_def)
  have d: "Capacity two_vectors 0 \<noteq> 0 \<longrightarrow> buffer_of two_vectors 0 \<noteq> buffer_of two_vectors 1"
    by (simp add: buffer_of_def two_vectors_def)
  have ft: "fits T_int (Size two_vectors 1)"
    by (simp add: fits_def T_int_def Size_def two_vectors_def)
  have "\<exists>s'. Vector_copy_ctor T_int 2 1 two_vectors = Ok () s' \<and> Size s' 2 = Size two_vectors 1 \<and>
          (\<forall>i. Vector_index s' 2 i = Vector_index two_vectors 1 i) \<and>
          (\<forall>T' ms s''. mutations T' 2 ms s' = Some s'' \<longrightarrow> unchanged 1 two_vectors s'')"
    using copy_is_independent[of two_vectors 1 T_int 2, OF w1 calm_T_int _ ft] by simp
  then obtain s1 where c1: "Vector_copy_ctor T_int 2 1 two_vectors = Ok () s1"
    and z1: "Size s1 2 = Size two_vectors 1"
    and i1: "\<forall>i. Vector_index s1 2 i = Vector_index two_vectors 1 i"
    and m1: "\<And>T' ms s''. mutations T' 2 ms s1 = Some s'' \<Longrightarrow> unchanged 1 two_vectors s''"
    by blast
  from two_vectors_copy_run obtain t1 t1' where
    r1: "Vector_copy_ctor T_int 2 1 two_vectors = Ok () t1"
      "mutations (T_fail_at 3) 2 [CallPopBack, CallPushBack (ByValue 9), CallPushBack (ByValue 8)] t1 = Some t1'"
      "Vector_index t1' 2 1 = Some 8"
    by blast
  have e1: "t1 = s1" using c1 r1(1) by simp
  have u1: "unchanged 1 two_vectors t1'" by (rule m1[OF r1(2)[unfolded e1]])
  have "\<exists>s'. Vector_copy_assign T_int 0 1 two_vectors = Ok () s' \<and> Size s' 0 = Size two_vectors 1 \<and>
          (\<forall>i. Vector_index s' 0 i = Vector_index two_vectors 1 i) \<and>
          (\<forall>T' ms s''. mutations T' 0 ms s' = Some s'' \<longrightarrow> unchanged 1 two_vectors s'')"
    using copy_is_independent[of two_vectors 1 T_int 0, OF w1 calm_T_int _ ft] w0 d by simp
  then obtain s2 where c2: "Vector_copy_assign T_int 0 1 two_vectors = Ok () s2"
    and z2: "Size s2 0 = Size two_vectors 1"
    and i2: "\<forall>i. Vector_index s2 0 i = Vector_index two_vectors 1 i"
    and m2: "\<And>T' ms s''. mutations T' 0 ms s2 = Some s'' \<Longrightarrow> unchanged 1 two_vectors s''"
    by blast
  from two_vectors_assign_run obtain t2 t2' where
    r2: "Vector_copy_assign T_int 0 1 two_vectors = Ok () t2"
      "mutations T_int 0 [CallErase 0, CallPushBack (ByValue 9), CallInsert 0 (ByValue 4)] t2 = Some t2'"
      "Vector_index t2' 0 0 = Some 4"
    by blast
  have e2: "t2 = s2" using c2 r2(1) by simp
  have u2: "unchanged 1 two_vectors t2'" by (rule m2[OF r2(2)[unfolded e2]])
  have A: "\<exists>s' s''. Vector_copy_ctor T_int 2 1 two_vectors = Ok () s' \<and>
      Size s' 2 = Size two_vectors 1 \<and> (\<forall>i. Vector_index s' 2 i = Vector_index two_vectors 1 i) \<and>
      mutations (T_fail_at 3) 2 [CallPopBack, CallPushBack (ByValue 9), CallPushBack (ByValue 8)] s' = Some s'' \<and>
      Vector_index s'' 2 1 = Some 8 \<and> unchanged 1 two_vectors s''"
    using c1 z1 i1 r1(2,3)[unfolded e1] u1 by blast
  have B: "\<exists>s' s''. Vector_copy_assign T_int 0 1 two_vectors = Ok () s' \<and>
      Size s' 0 = Size two_vectors 1 \<and> (\<forall>i. Vector_index s' 0 i = Vector_index two_vectors 1 i) \<and>
      mutations T_int 0 [CallErase 0, CallPushBack (ByValue 9), CallInsert 0 (ByValue 4)] s' = Some s'' \<and>
      Vector_index s'' 0 0 = Some 4 \<and> unchanged 1 two_vectors s''"
    using c2 z2 i2 r2(2,3)[unfolded e2] u2 by blast
  show ?thesis using A B by (rule conjI)
qed


end
